theory Spec2Isabelle
  imports Main "HOL-Library.Sublist" "HOL-Library.Signed_Division"
begin

section \<open>UniqueByParallel (slice/slice\_parallel.go)\<close>

text \<open>
  The embedding follows \<^verbatim>\<open>UniqueByParallel\<close> statement by statement.

  \<^item> A Go slice of a comparable type \<open>T\<close> is a HOL list; Go's \<open>==\<close> on \<open>T\<close> is HOL
    equality (so \<open>T\<close> has no floating-point part, whose \<open>NaN\<close> differs from itself, and
    no interface part, whose comparison can panic).
  \<^item> Go's \<open>int\<close> is \<open>int\<close>: with \<open>numOfThreads\<close> clamped to the slice length or to the
    CPU count, \<open>len(slice) + numOfThreads - 1\<close> stays far below \<open>2^63\<close>. Go's \<open>/\<close>
    truncates towards zero, which is \<open>sdiv\<close>.
  \<^item> \<open>runtime.NumCPU()\<close> is the parameter \<open>maxThreads\<close>.
  \<^item> The comparator is a total, pure predicate; a comparator that can panic has a
    model of its own below.
  \<^item> A run-time panic raised on the calling goroutine is a value of type \<open>panic\<close>;
    a call that never returns is \<open>None\<close>.
  \<^item> The worker goroutines are pure, so the only effect of the scheduler on the call
    is the order in which the workers' messages leave the channel. That order is the
    parameter \<open>sched\<close>: the list of chunk indices in order of arrival. The goroutines,
    the channel and the \<open>WaitGroup\<close> are modelled step by step below, and every
    execution is shown to end with such an order.
\<close>

datatype panic = IntegerDivideByZero | MakeSliceCapOutOfRange | SliceBoundsOutOfRange

type_synonym 'a comparator = "'a \<Rightarrow> 'a \<Rightarrow> bool"

subsection \<open>Lines 18-27: the number of threads\<close>

definition clampNumOfThreads :: "int \<Rightarrow> int \<Rightarrow> int \<Rightarrow> int" where
  "clampNumOfThreads maxThreads len numOfThreads =
     (let n = (if numOfThreads \<le> 0 then 1
               else if numOfThreads > len then len
               else numOfThreads)
      in if n > maxThreads then maxThreads else n)"

subsection \<open>Lines 29-44: removeDuplicate\<close>

text \<open>The inner loop: is \<open>item\<close> matched by an element of \<open>result\<close>? It stops at the
  first match (\<open>break\<close>).\<close>

fun seenIn :: "'a comparator \<Rightarrow> 'a \<Rightarrow> 'a list \<Rightarrow> bool" where
  "seenIn comparator item [] = False"
| "seenIn comparator item (r # rs) =
     (if comparator item r then True else seenIn comparator item rs)"

text \<open>The outer loop, with the local \<open>result\<close> as accumulator.\<close>

fun removeDuplicateLoop :: "'a comparator \<Rightarrow> 'a list \<Rightarrow> 'a list \<Rightarrow> 'a list" where
  "removeDuplicateLoop comparator result [] = result"
| "removeDuplicateLoop comparator result (item # items) =
     (if \<not> seenIn comparator item result
      then removeDuplicateLoop comparator (result @ [item]) items
      else removeDuplicateLoop comparator result items)"

definition removeDuplicate :: "'a list \<Rightarrow> 'a comparator \<Rightarrow> 'a list" where
  "removeDuplicate items comparator = removeDuplicateLoop comparator [] items"

subsection \<open>Lines 46-55: the chunks\<close>

definition chunkSizeOf :: "int \<Rightarrow> int \<Rightarrow> panic + int" where
  "chunkSizeOf len numOfThreads =
     (if numOfThreads = 0 then Inl IntegerDivideByZero
      else Inr ((len + numOfThreads - 1) sdiv numOfThreads))"

text \<open>The slice expression \<open>slice[i:end]\<close>, which panics unless \<open>0 \<le> i \<le> end \<le> cap\<close>
  (here \<open>end \<le> len\<close> always).\<close>

definition subslice :: "'a list \<Rightarrow> int \<Rightarrow> int \<Rightarrow> panic + 'a list" where
  "subslice slice i end =
     (if 0 \<le> i \<and> i \<le> end \<and> end \<le> int (length slice)
      then Inr (take (nat (end - i)) (drop (nat i) slice))
      else Inl SliceBoundsOutOfRange)"

text \<open>The loop \<open>for i := 0; i < len(slice); i += chunkSize\<close>. Taken alone it does not
  return when \<open>chunkSize = 0\<close> and the slice is not empty.\<close>

partial_function (option) chunkLoop ::
  "'a list \<Rightarrow> int \<Rightarrow> int \<Rightarrow> 'a list list \<Rightarrow> (panic + 'a list list) option" where
  "chunkLoop slice chunkSize i chunks =
     (if i < int (length slice) then
        (let end = i + chunkSize;
             end = (if end > int (length slice) then int (length slice) else end)
         in case subslice slice i end of
              Inl p \<Rightarrow> Some (Inl p)
            | Inr chunk \<Rightarrow> chunkLoop slice chunkSize (i + chunkSize) (chunks @ [chunk]))
      else Some (Inr chunks))"

declare chunkLoop.simps [code]

text \<open>Lines 46-55 together, for the clamped \<open>numOfThreads\<close>: the division, then
  \<open>make([][]T, 0, numOfThreads)\<close>, which panics on a negative capacity, then the loop.\<close>

definition chunksOf :: "'a list \<Rightarrow> int \<Rightarrow> (panic + 'a list list) option" where
  "chunksOf slice numOfThreads =
     (case chunkSizeOf (int (length slice)) numOfThreads of
        Inl p \<Rightarrow> Some (Inl p)
      | Inr chunkSize \<Rightarrow>
          if numOfThreads < 0 then Some (Inl MakeSliceCapOutOfRange)
          else chunkLoop slice chunkSize 0 [])"

subsection \<open>Lines 57-80: the workers and the collection of their results\<close>

record 'a resultChunk =
  index :: nat
  data :: "'a list"

text \<open>What the goroutine started for chunk \<open>i\<close> sends on \<open>resultCh\<close>.\<close>

definition worker :: "'a comparator \<Rightarrow> 'a list list \<Rightarrow> nat \<Rightarrow> 'a resultChunk" where
  "worker comparator chunks i =
     \<lparr>index = i, data = removeDuplicate (chunks ! i) comparator\<rparr>"

text \<open>The channel is buffered for every worker, so no send blocks; the receiving loop
  sees the messages in the order \<open>sched\<close> in which the workers finished.\<close>

definition received :: "nat list \<Rightarrow> 'a comparator \<Rightarrow> 'a list list \<Rightarrow> 'a resultChunk list" where
  "received sched comparator chunks = map (worker comparator chunks) sched"

text \<open>A schedule of \<open>n\<close> workers lets each of them send once.\<close>

definition validSchedule :: "nat list \<Rightarrow> nat \<Rightarrow> bool" where
  "validSchedule sched n = (sort sched = [0..<n])"

text \<open>The loop \<open>for r := range resultCh { results[r.index] = r.data }\<close>.\<close>

fun collect :: "'a list list \<Rightarrow> 'a resultChunk list \<Rightarrow> 'a list list" where
  "collect results [] = results"
| "collect results (r # rs) = collect (results[index r := data r]) rs"

definition dispatch :: "nat list \<Rightarrow> 'a comparator \<Rightarrow> 'a list list \<Rightarrow> 'a list list" where
  "dispatch sched comparator chunks =
     collect (replicate (length chunks) []) (received sched comparator chunks)"

subsection \<open>Lines 82-95: the merge\<close>

text \<open>\<open>seen\<close> is a \<open>map[T]bool\<close>; reading a missing key gives \<open>false\<close>.\<close>

definition seenAt :: "('a \<rightharpoonup> bool) \<Rightarrow> 'a \<Rightarrow> bool" where
  "seenAt seen item = (case seen item of None \<Rightarrow> False | Some b \<Rightarrow> b)"

fun mergeItems :: "('a \<rightharpoonup> bool) \<Rightarrow> 'a list \<Rightarrow> 'a list \<Rightarrow> ('a \<rightharpoonup> bool) \<times> 'a list" where
  "mergeItems seen result [] = (seen, result)"
| "mergeItems seen result (item # chunk) =
     (if \<not> seenAt seen item
      then mergeItems (seen(item \<mapsto> True)) (result @ [item]) chunk
      else mergeItems seen result chunk)"

fun mergeChunks :: "('a \<rightharpoonup> bool) \<Rightarrow> 'a list \<Rightarrow> 'a list list \<Rightarrow> 'a list" where
  "mergeChunks seen result [] = result"
| "mergeChunks seen result (chunk # results) =
     (case mergeItems seen result chunk of
        (seen', result') \<Rightarrow> mergeChunks seen' result' results)"

definition merge :: "'a list list \<Rightarrow> 'a list" where
  "merge results = mergeChunks Map.empty [] results"

subsection \<open>The whole function\<close>

definition UniqueByParallel ::
  "int \<Rightarrow> nat list \<Rightarrow> 'a list \<Rightarrow> int \<Rightarrow> 'a comparator \<Rightarrow> (panic + 'a list) option" where
  "UniqueByParallel maxThreads sched slice numOfThreads comparator =
     (case chunksOf slice (clampNumOfThreads maxThreads (int (length slice)) numOfThreads) of
        None \<Rightarrow> None
      | Some (Inl p) \<Rightarrow> Some (Inl p)
      | Some (Inr chunks) \<Rightarrow> Some (Inr (merge (dispatch sched comparator chunks))))"

text \<open>The number of goroutines a call starts: one for each chunk.\<close>

definition numWorkers :: "int \<Rightarrow> 'a list \<Rightarrow> int \<Rightarrow> nat" where
  "numWorkers maxThreads slice numOfThreads =
     (case chunksOf slice (clampNumOfThreads maxThreads (int (length slice)) numOfThreads) of
        Some (Inr chunks) \<Rightarrow> length chunks
      | _ \<Rightarrow> 0)"

subsection \<open>Lines 61-80 as a transition system\<close>

text \<open>
  The goroutines of the dispatcher, one step at a time. The calling goroutine starts a
  worker for each chunk (\<open>wg.Add(1)\<close> and \<open>go\<close>), starts the goroutine that waits for the
  \<open>WaitGroup\<close> and closes the channel, makes \<open>results\<close> and receives from the channel
  until it is closed and empty. A worker computes its result and sends it, which needs
  room in the channel, and then its deferred \<open>wg.Done()\<close> runs. The Go scheduler chooses
  which goroutine moves next: an execution is the list of these choices. \<open>collected\<close>
  records the indices of the messages in the order in which they were received; the code
  has no such variable.
\<close>

datatype goroutine = NotStarted | Running | Sent | Exited

datatype mainLine = Spawning nat | Receiving | Merging

datatype closerLine = Unstarted | Waiting | Closed

datatype event = Spawn | StartCloser | Send nat | WgDone nat | CloseCh | Receive | ExitLoop

record 'a dispatcher =
  mainAt :: mainLine
  workerAt :: "goroutine list"
  wgCounter :: nat
  chanQueue :: "'a resultChunk list"
  chanClosed :: bool
  closerAt :: closerLine
  resultsArr :: "'a list list"
  collected :: "nat list"

definition dispatcherStart :: "'a list list \<Rightarrow> 'a dispatcher" where
  "dispatcherStart chunks =
     \<lparr>mainAt = Spawning 0, workerAt = replicate (length chunks) NotStarted, wgCounter = 0,
      chanQueue = [], chanClosed = False, closerAt = Unstarted, resultsArr = [],
      collected = []\<rparr>"

definition dispatcherStep ::
  "'a comparator \<Rightarrow> 'a list list \<Rightarrow> nat \<Rightarrow> event \<Rightarrow> 'a dispatcher \<Rightarrow> 'a dispatcher option" where
  "dispatcherStep comparator chunks capacity e s =
     (case e of
        Spawn \<Rightarrow>
          (case mainAt s of
             Spawning k \<Rightarrow>
               if k < length chunks
               then Some (s\<lparr>mainAt := Spawning (k + 1), wgCounter := wgCounter s + 1,
                            workerAt := (workerAt s)[k := Running]\<rparr>)
               else None
           | _ \<Rightarrow> None)
      | StartCloser \<Rightarrow>
          (case mainAt s of
             Spawning k \<Rightarrow>
               if k = length chunks
               then Some (s\<lparr>mainAt := Receiving, closerAt := Waiting,
                            resultsArr := replicate (length chunks) []\<rparr>)
               else None
           | _ \<Rightarrow> None)
      | Send i \<Rightarrow>
          if i < length chunks \<and> workerAt s ! i = Running \<and> length (chanQueue s) < capacity
          then Some (s\<lparr>chanQueue := chanQueue s @ [worker comparator chunks i],
                       workerAt := (workerAt s)[i := Sent]\<rparr>)
          else None
      | WgDone i \<Rightarrow>
          if i < length chunks \<and> workerAt s ! i = Sent
          then Some (s\<lparr>wgCounter := wgCounter s - 1, workerAt := (workerAt s)[i := Exited]\<rparr>)
          else None
      | CloseCh \<Rightarrow>
          if closerAt s = Waiting \<and> wgCounter s = 0
          then Some (s\<lparr>chanClosed := True, closerAt := Closed\<rparr>)
          else None
      | Receive \<Rightarrow>
          (case chanQueue s of
             r # queue \<Rightarrow>
               if mainAt s = Receiving
               then Some (s\<lparr>chanQueue := queue,
                            resultsArr := (resultsArr s)[index r := data r],
                            collected := collected s @ [index r]\<rparr>)
               else None
           | [] \<Rightarrow> None)
      | ExitLoop \<Rightarrow>
          if mainAt s = Receiving \<and> chanQueue s = [] \<and> chanClosed s
          then Some (s\<lparr>mainAt := Merging\<rparr>)
          else None)"

fun dispatcherRun ::
  "'a comparator \<Rightarrow> 'a list list \<Rightarrow> nat \<Rightarrow> event list \<Rightarrow> 'a dispatcher \<Rightarrow> 'a dispatcher option" where
  "dispatcherRun comparator chunks capacity [] s = Some s"
| "dispatcherRun comparator chunks capacity (e # es) s =
     (case dispatcherStep comparator chunks capacity e s of
        None \<Rightarrow> None
      | Some s' \<Rightarrow> dispatcherRun comparator chunks capacity es s')"

text \<open>What holds in every state that an execution reaches: the counter of the
  \<open>WaitGroup\<close> is the number of workers that have started and not yet finished; the
  channel is closed only once every worker has finished; the indices in the channel and
  those already received are, each once, those of the workers that have sent; a message
  carries the result of its worker, and a received one is stored at its index.\<close>

definition busy :: "goroutine \<Rightarrow> bool" where
  "busy w = (w = Running \<or> w = Sent)"

definition delivered :: "'a dispatcher \<Rightarrow> nat set" where
  "delivered s = set (map index (chanQueue s)) \<union> set (collected s)"

definition mainInv :: "'a list list \<Rightarrow> 'a dispatcher \<Rightarrow> bool" where
  "mainInv chunks s =
     (case mainAt s of
        Spawning k \<Rightarrow>
          k \<le> length chunks \<and> closerAt s = Unstarted \<and> collected s = [] \<and>
          (\<forall>i < length chunks. (workerAt s ! i = NotStarted) = (k \<le> i))
      | Receiving \<Rightarrow>
          closerAt s \<noteq> Unstarted \<and> NotStarted \<notin> set (workerAt s) \<and>
          length (resultsArr s) = length chunks
      | Merging \<Rightarrow>
          closerAt s \<noteq> Unstarted \<and> NotStarted \<notin> set (workerAt s) \<and>
          length (resultsArr s) = length chunks \<and> chanQueue s = [] \<and> chanClosed s)"

definition dispatcherInv :: "'a comparator \<Rightarrow> 'a list list \<Rightarrow> 'a dispatcher \<Rightarrow> bool" where
  "dispatcherInv comparator chunks s =
     (length (workerAt s) = length chunks \<and>
      wgCounter s = length (filter busy (workerAt s)) \<and>
      mainInv chunks s \<and>
      chanClosed s = (closerAt s = Closed) \<and>
      (chanClosed s \<longrightarrow> (\<forall>i < length chunks. workerAt s ! i = Exited)) \<and>
      distinct (map index (chanQueue s) @ collected s) \<and>
      (\<forall>i. (i \<in> delivered s) =
            (i < length chunks \<and> (workerAt s ! i = Sent \<or> workerAt s ! i = Exited))) \<and>
      (\<forall>r \<in> set (chanQueue s). r = worker comparator chunks (index r)) \<and>
      (\<forall>i \<in> set (collected s). resultsArr s ! i = removeDuplicate (chunks ! i) comparator))"

text \<open>The number of steps that remain until the receiving loop has ended.\<close>

fun goroutineSteps :: "goroutine \<Rightarrow> nat" where
  "goroutineSteps NotStarted = 4"
| "goroutineSteps Running = 3"
| "goroutineSteps Sent = 1"
| "goroutineSteps Exited = 0"

definition stepsLeft :: "'a dispatcher \<Rightarrow> nat" where
  "stepsLeft s =
     sum_list (map goroutineSteps (workerAt s)) + length (chanQueue s) +
     (case closerAt s of Closed \<Rightarrow> 0 | _ \<Rightarrow> 1) +
     (case mainAt s of Spawning k \<Rightarrow> 2 | Receiving \<Rightarrow> 1 | Merging \<Rightarrow> 0)"

subsection \<open>A comparator that can panic\<close>

text \<open>
  The comparator may panic instead of returning: \<open>None\<close>. A panic inside
  \<open>removeDuplicate\<close> ends the worker goroutine, whose function (lines 66-69) defers only
  \<open>wg.Done()\<close> and recovers nothing; a panic that no goroutine recovers ends the program.
  So a call returns, or panics on the calling goroutine (where the caller can recover
  it), or ends the process.
\<close>

type_synonym 'a fallibleComparator = "'a \<Rightarrow> 'a \<Rightarrow> bool option"


fun seenInP :: "'a fallibleComparator \<Rightarrow> 'a \<Rightarrow> 'a list \<Rightarrow> bool option" where
  "seenInP comparator item [] = Some False"
| "seenInP comparator item (r # rs) =
     (case comparator item r of
        None \<Rightarrow> None
      | Some matched \<Rightarrow> if matched then Some True else seenInP comparator item rs)"

fun removeDuplicateLoopP :: "'a fallibleComparator \<Rightarrow> 'a list \<Rightarrow> 'a list \<Rightarrow> 'a list option" where
  "removeDuplicateLoopP comparator result [] = Some result"
| "removeDuplicateLoopP comparator result (item # items) =
     (case seenInP comparator item result of
        None \<Rightarrow> None
      | Some seen \<Rightarrow>
          if \<not> seen then removeDuplicateLoopP comparator (result @ [item]) items
          else removeDuplicateLoopP comparator result items)"




subsection \<open>The function over an explicit store\<close>

text \<open>
  For what the call does to memory, slices are headers over arrays in a heap. The heap is
  the list of the arrays of element type \<open>T\<close>, an address is an index into it, and a new
  array is allocated at the end. A slice header has the address of its array, the offset
  of its first element in the array, its length and its capacity; the nil slice and the
  empty slice \<open>[]T{}\<close> have the capacity 0 and no array. The arrays behind \<open>chunks\<close> and
  \<open>results\<close> hold slice headers, not elements (a comparable \<open>T\<close> is no slice type), so
  they cannot overlap an array of elements: they are lists of headers.
\<close>

record hdr =
  base :: nat
  offs :: nat
  slen :: nat
  scap :: nat

type_synonym 'a heap = "'a list list"

text \<open>What the Go runtime decides: the capacity of a grown slice (never taken below what
  is needed) and the zero value of \<open>T\<close> that fills a new array.\<close>

record 'a runtime =
  growCap :: "nat \<Rightarrow> nat"
  zero :: 'a

text \<open>The elements of a slice, and the element \<open>s[i]\<close>.\<close>

definition viewOf :: "'a heap \<Rightarrow> hdr \<Rightarrow> 'a list" where
  "viewOf h s = take (slen s) (drop (offs s) (h ! base s))"

definition elemAt :: "'a heap \<Rightarrow> hdr \<Rightarrow> nat \<Rightarrow> 'a" where
  "elemAt h s i = h ! base s ! (offs s + i)"

definition nilSlice :: hdr where
  "nilSlice = \<lparr>base = 0, offs = 0, slen = 0, scap = 0\<rparr>"

text \<open>\<open>append(s, x)\<close>: within the capacity the element is written into the array of
  \<open>s\<close>; otherwise a new array is allocated, with the elements of \<open>s\<close> and then \<open>x\<close>.\<close>

definition goAppend :: "'a runtime \<Rightarrow> 'a heap \<Rightarrow> hdr \<Rightarrow> 'a \<Rightarrow> 'a heap \<times> hdr" where
  "goAppend rt h s x =
     (if slen s < scap s
      then (h[base s := (h ! base s)[offs s + slen s := x]], s\<lparr>slen := slen s + 1\<rparr>)
      else (let c = max (slen s + 1) (growCap rt (scap s))
            in (h @ [viewOf h s @ [x] @ replicate (c - (slen s + 1)) (zero rt)],
                \<lparr>base = length h, offs = 0, slen = slen s + 1, scap = c\<rparr>)))"

text \<open>\<open>removeDuplicate\<close>: the elements of \<open>items\<close> and of \<open>result\<close> are read from the heap
  as it is at that moment; \<open>result\<close> starts as the nil slice.\<close>

fun removeDuplicateLoopS ::
  "'a runtime \<Rightarrow> 'a comparator \<Rightarrow> hdr \<Rightarrow> 'a heap \<Rightarrow> hdr \<Rightarrow> nat list \<Rightarrow> 'a heap \<times> hdr" where
  "removeDuplicateLoopS rt comparator items h result [] = (h, result)"
| "removeDuplicateLoopS rt comparator items h result (i # is) =
     (let item = elemAt h items i in
      if \<not> seenIn comparator item (viewOf h result)
      then (case goAppend rt h result item of
              (h', result') \<Rightarrow> removeDuplicateLoopS rt comparator items h' result' is)
      else removeDuplicateLoopS rt comparator items h result is)"

definition removeDuplicateS :: "'a runtime \<Rightarrow> 'a heap \<Rightarrow> hdr \<Rightarrow> 'a comparator \<Rightarrow> 'a heap \<times> hdr" where
  "removeDuplicateS rt h items comparator =
     removeDuplicateLoopS rt comparator items h nilSlice [0..<slen items]"

text \<open>\<open>slice[i:end]\<close> on a header: the same array, and the bound is the capacity.\<close>

definition subsliceS :: "hdr \<Rightarrow> int \<Rightarrow> int \<Rightarrow> panic + hdr" where
  "subsliceS s i end =
     (if 0 \<le> i \<and> i \<le> end \<and> end \<le> int (scap s)
      then Inr \<lparr>base = base s, offs = offs s + nat i, slen = nat (end - i), scap = scap s - nat i\<rparr>
      else Inl SliceBoundsOutOfRange)"

partial_function (option) chunkLoopS ::
  "hdr \<Rightarrow> int \<Rightarrow> int \<Rightarrow> hdr list \<Rightarrow> (panic + hdr list) option" where
  "chunkLoopS slice chunkSize i chunks =
     (if i < int (slen slice) then
        (let end = i + chunkSize;
             end = (if end > int (slen slice) then int (slen slice) else end)
         in case subsliceS slice i end of
              Inl p \<Rightarrow> Some (Inl p)
            | Inr chunk \<Rightarrow> chunkLoopS slice chunkSize (i + chunkSize) (chunks @ [chunk]))
      else Some (Inr chunks))"

declare chunkLoopS.simps [code]

definition chunksOfS :: "hdr \<Rightarrow> int \<Rightarrow> (panic + hdr list) option" where
  "chunksOfS slice numOfThreads =
     (case chunkSizeOf (int (slen slice)) numOfThreads of
        Inl p \<Rightarrow> Some (Inl p)
      | Inr chunkSize \<Rightarrow>
          if numOfThreads < 0 then Some (Inl MakeSliceCapOutOfRange)
          else chunkLoopS slice chunkSize 0 [])"

text \<open>The workers write only to arrays that they allocate themselves, so their
  interleaving decides nothing but the addresses they receive: they are run one after the
  other, in the order \<open>sched\<close> in which their results arrive.\<close>

record resultChunkS =
  indexS :: nat
  dataS :: hdr

fun workersS ::
  "'a runtime \<Rightarrow> 'a comparator \<Rightarrow> hdr list \<Rightarrow> 'a heap \<Rightarrow> nat list \<Rightarrow> 'a heap \<times> resultChunkS list" where
  "workersS rt comparator chunks h [] = (h, [])"
| "workersS rt comparator chunks h (i # sched) =
     (case removeDuplicateS rt h (chunks ! i) comparator of
        (h', r) \<Rightarrow>
          (case workersS rt comparator chunks h' sched of
             (h'', msgs) \<Rightarrow> (h'', \<lparr>indexS = i, dataS = r\<rparr> # msgs)))"

fun collectS :: "hdr list \<Rightarrow> resultChunkS list \<Rightarrow> hdr list" where
  "collectS results [] = results"
| "collectS results (r # rs) = collectS (results[indexS r := dataS r]) rs"

fun mergeItemsS ::
  "'a runtime \<Rightarrow> hdr \<Rightarrow> ('a \<rightharpoonup> bool) \<Rightarrow> 'a heap \<Rightarrow> hdr \<Rightarrow> nat list \<Rightarrow>
   ('a \<rightharpoonup> bool) \<times> 'a heap \<times> hdr" where
  "mergeItemsS rt chunk seen h result [] = (seen, h, result)"
| "mergeItemsS rt chunk seen h result (i # is) =
     (let item = elemAt h chunk i in
      if \<not> seenAt seen item
      then (case goAppend rt h result item of
              (h', result') \<Rightarrow> mergeItemsS rt chunk (seen(item \<mapsto> True)) h' result' is)
      else mergeItemsS rt chunk seen h result is)"

fun mergeChunksS ::
  "'a runtime \<Rightarrow> ('a \<rightharpoonup> bool) \<Rightarrow> 'a heap \<Rightarrow> hdr \<Rightarrow> hdr list \<Rightarrow> 'a heap \<times> hdr" where
  "mergeChunksS rt seen h result [] = (h, result)"
| "mergeChunksS rt seen h result (chunk # results) =
     (case mergeItemsS rt chunk seen h result [0..<slen chunk] of
        (seen', h', result') \<Rightarrow> mergeChunksS rt seen' h' result' results)"

definition mergeS :: "'a runtime \<Rightarrow> 'a heap \<Rightarrow> hdr list \<Rightarrow> 'a heap \<times> hdr" where
  "mergeS rt h results = mergeChunksS rt Map.empty h nilSlice results"

definition UniqueByParallelS ::
  "int \<Rightarrow> nat list \<Rightarrow> 'a runtime \<Rightarrow> 'a heap \<Rightarrow> hdr \<Rightarrow> int \<Rightarrow> 'a comparator \<Rightarrow>
   (panic + 'a heap \<times> hdr) option" where
  "UniqueByParallelS maxThreads sched rt h slice numOfThreads comparator =
     (case chunksOfS slice (clampNumOfThreads maxThreads (int (slen slice)) numOfThreads) of
        None \<Rightarrow> None
      | Some (Inl p) \<Rightarrow> Some (Inl p)
      | Some (Inr chunks) \<Rightarrow>
          (case workersS rt comparator chunks h sched of
             (h', msgs) \<Rightarrow>
               Some (Inr (mergeS rt h' (collectS (replicate (length chunks) nilSlice) msgs)))))"

text \<open>A runtime for the examples: capacities double, and the zero value of \<open>int\<close>.\<close>

definition doubling :: "int runtime" where
  "doubling = \<lparr>growCap = (\<lambda>c. 2 * c), zero = 0\<rparr>"

text \<open>The slice \<open>s\<close> lies within an array of the heap \<open>h\<close>, as every slice of a
  running program does.\<close>

definition sliceIn :: "'a heap \<Rightarrow> hdr \<Rightarrow> bool" where
  "sliceIn h s =
     (base s < length h \<and> slen s \<le> scap s \<and> offs s + scap s \<le> length (h ! base s))"

text \<open>The elements of \<open>s\<close> can be read; \<open>s\<close> can be read and is empty or in an array below
  the address \<open>n\<close>; \<open>r\<close> has no array or one allocated at the address \<open>n\<close> or later (and its
  whole capacity lies in that array).\<close>

definition readable :: "'a heap \<Rightarrow> hdr \<Rightarrow> bool" where
  "readable h s = (slen s = 0 \<or> (base s < length h \<and> offs s + slen s \<le> length (h ! base s)))"

definition placed :: "nat \<Rightarrow> 'a heap \<Rightarrow> hdr \<Rightarrow> bool" where
  "placed n h s = (readable h s \<and> (slen s = 0 \<or> base s < n))"

definition freshFrom :: "nat \<Rightarrow> hdr \<Rightarrow> bool" where
  "freshFrom n r = (scap r = 0 \<or> n \<le> base r)"

definition ownedFrom :: "nat \<Rightarrow> 'a heap \<Rightarrow> hdr \<Rightarrow> bool" where
  "ownedFrom n h r =
     (slen r \<le> scap r \<and>
      (scap r = 0 \<or> (n \<le> base r \<and> base r < length h \<and> offs r + scap r \<le> length (h ! base r))))"

text \<open>The header of chunk \<open>k\<close> for the chunk size \<open>cs\<close>.\<close>

definition chunkHdrAt :: "hdr \<Rightarrow> nat \<Rightarrow> nat \<Rightarrow> hdr" where
  "chunkHdrAt s cs k =
     \<lparr>base = base s, offs = offs s + k * cs,
      slen = min (k * cs + cs) (slen s) - k * cs, scap = scap s - k * cs\<rparr>"

subsection \<open>Notions of the specification\<close>

text \<open>The comparator-based left-to-right distinct of the specification: an element is
  kept iff the comparator matches it with no element kept before it.\<close>

definition keepIfUnmatched :: "'a comparator \<Rightarrow> 'a list \<Rightarrow> 'a \<Rightarrow> 'a list" where
  "keepIfUnmatched comparator kept x =
     (if (\<exists>k \<in> set kept. comparator x k) then kept else kept @ [x])"

definition leftToRightDistinct :: "'a comparator \<Rightarrow> 'a list \<Rightarrow> 'a list" where
  "leftToRightDistinct comparator xs = foldl (keepIfUnmatched comparator) [] xs"

text \<open>The pass of the specification's merger: an element is emitted the first time it
  is seen (under equality) and skipped afterwards; \<open>before\<close> holds what has been seen.\<close>

fun firstOccurrences :: "'a list \<Rightarrow> 'a list \<Rightarrow> 'a list" where
  "firstOccurrences before [] = []"
| "firstOccurrences before (x # xs) =
     (if x \<in> set before then firstOccurrences before xs
      else x # firstOccurrences (before @ [x]) xs)"

text \<open>Chunk \<open>k\<close> for the chunk size \<open>cs\<close>: the elements from \<open>k * cs\<close> up to
  \<open>(k + 1) * cs\<close> or to the end of the slice.\<close>

definition chunkAt :: "'a list \<Rightarrow> nat \<Rightarrow> nat \<Rightarrow> 'a list" where
  "chunkAt slice cs k = take cs (drop (k * cs) slice)"

text \<open>Comparators of the examples: one that never matches, and the case-insensitive
  equality of strings (on the letters A to Z) of the specification's scenarios.\<close>

definition neverEqual :: "int comparator" where
  "neverEqual item other = False"

definition toLower :: "char \<Rightarrow> char" where
  "toLower c = (if (65::nat) \<le> of_char c \<and> of_char c \<le> (90::nat)
                then char_of (of_char c + (32::nat)) else c)"

definition equalFold :: "string comparator" where
  "equalFold item other = (map toLower item = map toLower other)"

section \<open>Properties\<close>

subsection \<open>removeDuplicate\<close>

lemma seenIn_iff: "seenIn comparator item result = (\<exists>r \<in> set result. comparator item r)"
  by (induction result) auto

lemma removeDuplicateLoop_foldl:
  "removeDuplicateLoop comparator result items = foldl (keepIfUnmatched comparator) result items"
  by (induction items arbitrary: result) (simp_all add: seenIn_iff keepIfUnmatched_def)

lemma foldl_keep_subseq:
  "\<exists>ys. foldl (keepIfUnmatched comparator) result items = result @ ys \<and> subseq ys items"
proof (induction items arbitrary: result)
  case Nil
  show ?case by simp
next
  case (Cons item items)
  show ?case
  proof (cases "\<exists>k \<in> set result. comparator item k")
    case True
    then have step: "keepIfUnmatched comparator result item = result"
      by (simp add: keepIfUnmatched_def)
    from Cons.IH [of result] obtain ys where
      ys: "foldl (keepIfUnmatched comparator) result items = result @ ys" "subseq ys items"
      by blast
    have "foldl (keepIfUnmatched comparator) result (item # items) = result @ ys"
      using step ys(1) by simp
    moreover have "subseq ys (item # items)" using ys(2) by (rule list_emb_Cons)
    ultimately show ?thesis by blast
  next
    case False
    then have step: "keepIfUnmatched comparator result item = result @ [item]"
      by (simp add: keepIfUnmatched_def)
    from Cons.IH [of "result @ [item]"] obtain ys where
      ys: "foldl (keepIfUnmatched comparator) (result @ [item]) items = (result @ [item]) @ ys"
      "subseq ys items" by blast
    have "foldl (keepIfUnmatched comparator) result (item # items) = result @ (item # ys)"
      using step ys(1) by simp
    moreover have "subseq (item # ys) (item # items)" using ys(2) by simp
    ultimately show ?thesis by blast
  qed
qed

lemma leftToRightDistinct_subseq: "subseq (leftToRightDistinct comparator xs) xs"
  using foldl_keep_subseq [of comparator "[]" xs] by (auto simp: leftToRightDistinct_def)

lemma foldl_keep_distinct:
  "distinct result \<Longrightarrow> \<forall>x \<in> set items. comparator x x \<Longrightarrow>
   distinct (foldl (keepIfUnmatched comparator) result items)"
proof (induction items arbitrary: result)
  case Nil
  then show ?case by simp
next
  case (Cons item items)
  have "distinct (keepIfUnmatched comparator result item)"
    using Cons.prems by (auto simp: keepIfUnmatched_def)
  with Cons show ?case by simp
qed

subsection \<open>The collection of the results\<close>

lemma collect_length: "length (collect results rs) = length results"
  by (induction rs arbitrary: results) simp_all

lemma collect_nth:
  "i < length results \<Longrightarrow>
   collect results (map (\<lambda>j. \<lparr>index = j, data = f j\<rparr>) sched) ! i =
     (if i \<in> set sched then f i else results ! i)"
proof (induction sched arbitrary: results)
  case Nil
  show ?case by simp
next
  case (Cons j sched)
  then show ?case by (simp add: nth_list_update)
qed

lemma validSchedule_set: "validSchedule sched n \<Longrightarrow> set sched = {0..<n}"
  unfolding validSchedule_def by (metis set_sort set_upt)

lemma dispatch_valid:
  assumes "validSchedule sched (length chunks)"
  shows "dispatch sched comparator chunks = map (\<lambda>chunk. removeDuplicate chunk comparator) chunks"
proof (rule nth_equalityI)
  show "length (dispatch sched comparator chunks) =
        length (map (\<lambda>chunk. removeDuplicate chunk comparator) chunks)"
    by (simp add: dispatch_def collect_length)
next
  fix i assume "i < length (dispatch sched comparator chunks)"
  then have i: "i < length chunks" by (simp add: dispatch_def collect_length)
  have rec: "received sched comparator chunks =
      map (\<lambda>j. \<lparr>index = j, data = removeDuplicate (chunks ! j) comparator\<rparr>) sched"
    by (simp add: received_def worker_def)
  from i validSchedule_set [OF assms] have "i \<in> set sched" by simp
  with i show "dispatch sched comparator chunks ! i =
      map (\<lambda>chunk. removeDuplicate chunk comparator) chunks ! i"
    unfolding dispatch_def rec by (simp add: collect_nth)
qed

subsection \<open>The merge\<close>

lemma mergeItems_eq:
  "set before = {x. seenAt seen x} \<Longrightarrow>
   \<exists>seen'. mergeItems seen result chunk = (seen', result @ firstOccurrences before chunk) \<and>
     {x. seenAt seen' x} = set (before @ firstOccurrences before chunk)"
proof (induction chunk arbitrary: seen result before)
  case Nil
  then show ?case by simp
next
  case (Cons item chunk)
  show ?case
  proof (cases "seenAt seen item")
    case True
    with Cons.prems have "item \<in> set before" by auto
    with True Cons.IH [OF Cons.prems, of result] show ?thesis by simp
  next
    case False
    with Cons.prems have notin: "item \<notin> set before" by auto
    have "set (before @ [item]) = {x. seenAt (seen(item \<mapsto> True)) x}"
      using Cons.prems by (auto simp: seenAt_def)
    from Cons.IH [OF this, of "result @ [item]"] obtain seen' where
      s: "mergeItems (seen(item \<mapsto> True)) (result @ [item]) chunk =
            (seen', (result @ [item]) @ firstOccurrences (before @ [item]) chunk)"
         "{x. seenAt seen' x} = set ((before @ [item]) @ firstOccurrences (before @ [item]) chunk)"
      by blast
    have "mergeItems seen result (item # chunk) =
          (seen', result @ firstOccurrences before (item # chunk))"
      using False notin s(1) by simp
    moreover have "{x. seenAt seen' x} = set (before @ firstOccurrences before (item # chunk))"
      using notin s(2) by simp
    ultimately show ?thesis by blast
  qed
qed

lemma firstOccurrences_append:
  "firstOccurrences before (xs @ ys) =
     firstOccurrences before xs @ firstOccurrences (before @ firstOccurrences before xs) ys"
proof (induction xs arbitrary: before)
  case Nil
  show ?case by simp
next
  case (Cons x xs)
  show ?case by (simp add: Cons.IH)
qed

lemma mergeChunks_eq:
  "set before = {x. seenAt seen x} \<Longrightarrow>
   mergeChunks seen result results = result @ firstOccurrences before (concat results)"
proof (induction results arbitrary: seen result before)
  case Nil
  show ?case by simp
next
  case (Cons chunk results)
  from mergeItems_eq [OF Cons.prems, of result chunk] obtain seen' where
    s: "mergeItems seen result chunk = (seen', result @ firstOccurrences before chunk)"
       "{x. seenAt seen' x} = set (before @ firstOccurrences before chunk)"
    by blast
  from Cons.IH [OF s(2) [symmetric], of "result @ firstOccurrences before chunk"] s(1)
  show ?case by (simp add: firstOccurrences_append)
qed

lemma merge_eq: "merge results = firstOccurrences [] (concat results)"
  unfolding merge_def using mergeChunks_eq [of "[]" Map.empty "[]" results]
  by (simp add: seenAt_def)

lemma firstOccurrences_subseq: "subseq (firstOccurrences before xs) xs"
  by (induction xs arbitrary: before) (simp_all add: list_emb_Cons)

lemma firstOccurrences_set: "set (firstOccurrences before xs) = set xs - set before"
  by (induction xs arbitrary: before) auto

lemma firstOccurrences_distinct: "distinct (firstOccurrences before xs)"
  by (induction xs arbitrary: before) (simp_all add: firstOccurrences_set)

lemma firstOccurrences_id:
  "distinct xs \<Longrightarrow> set xs \<inter> set before = {} \<Longrightarrow> firstOccurrences before xs = xs"
  by (induction xs arbitrary: before) auto

subsection \<open>The chunks\<close>

lemma sdiv_nonneg: "0 \<le> k \<Longrightarrow> 0 < l \<Longrightarrow> k sdiv l = k div (l::int)"
  by (cases "k = 0") (simp_all add: signed_divide_int_def)

lemma lt_ceil_iff: "0 < cs \<Longrightarrow> j < (n + cs - 1) div cs \<longleftrightarrow> j * cs < (n::nat)"
proof -
  assume cs: "0 < cs"
  have "j < (n + cs - 1) div cs \<longleftrightarrow> Suc j \<le> (n + cs - 1) div cs" by auto
  also have "\<dots> \<longleftrightarrow> Suc j * cs \<le> n + cs - 1"
    using cs by (simp only: less_eq_div_iff_mult_less_eq)
  also have "\<dots> \<longleftrightarrow> j * cs < n" using cs by auto
  finally show ?thesis .
qed

lemma subslice_nat:
  assumes "a \<le> b" "b \<le> length slice"
  shows "subslice slice (int a) (int b) = Inr (take (b - a) (drop a slice))"
proof -
  have "nat (int b - int a) = b - a" by simp
  with assms show ?thesis by (simp add: subslice_def)
qed

lemma subslice_step:
  assumes "0 < cs" "a < length slice"
  shows "subslice slice (int a)
           (if int a + int cs > int (length slice) then int (length slice)
            else int a + int cs) = Inr (take cs (drop a slice))"
proof -
  let ?b = "min (a + cs) (length slice)"
  have e: "(if int a + int cs > int (length slice) then int (length slice)
            else int a + int cs) = int ?b"
    by (simp add: min_def)
  have "take (?b - a) (drop a slice) = take cs (drop a slice)"
    by (cases "a + cs \<le> length slice") (simp_all add: min_def)
  moreover have "subslice slice (int a) (int ?b) = Inr (take (?b - a) (drop a slice))"
    using assms by (intro subslice_nat) simp_all
  ultimately show ?thesis unfolding e by simp
qed

lemma chunkLoop_done:
  "length slice \<le> a \<Longrightarrow> chunkLoop slice chunkSize (int a) chunks = Some (Inr chunks)"
  by (subst chunkLoop.simps) simp

lemma chunkLoop_step:
  assumes "0 < cs" "a < length slice"
  shows "chunkLoop slice (int cs) (int a) chunks =
         chunkLoop slice (int cs) (int (a + cs)) (chunks @ [take cs (drop a slice)])"
proof -
  have "chunkLoop slice (int cs) (int a) chunks =
        (case subslice slice (int a)
           (if int a + int cs > int (length slice) then int (length slice)
            else int a + int cs) of
           Inl p \<Rightarrow> Some (Inl p)
         | Inr chunk \<Rightarrow> chunkLoop slice (int cs) (int a + int cs) (chunks @ [chunk]))"
    using assms(2) by (subst chunkLoop.simps) (simp add: Let_def)
  then show ?thesis unfolding subslice_step [OF assms] by simp
qed

lemma chunkLoop_from:
  assumes cs: "0 < cs"
  shows "chunkLoop slice (int cs) (int (j * cs)) chunks =
         Some (Inr (chunks @ map (chunkAt slice cs) [j..<(length slice + cs - 1) div cs]))"
proof (induction "length slice - j * cs" arbitrary: j chunks rule: less_induct)
  case less
  show ?case
  proof (cases "j * cs < length slice")
    case False
    then have "\<not> j < (length slice + cs - 1) div cs" using lt_ceil_iff [OF cs] by blast
    then have "[j..<(length slice + cs - 1) div cs] = []" by simp
    moreover have "chunkLoop slice (int cs) (int (j * cs)) chunks = Some (Inr chunks)"
      using False by (intro chunkLoop_done) simp
    ultimately show ?thesis by simp
  next
    case True
    then have jlt: "j < (length slice + cs - 1) div cs" using lt_ceil_iff [OF cs] by blast
    have dec: "length slice - Suc j * cs < length slice - j * cs" using True cs by simp
    have next_i: "j * cs + cs = Suc j * cs" by simp
    have "chunkLoop slice (int cs) (int (j * cs)) chunks =
          chunkLoop slice (int cs) (int (Suc j * cs)) (chunks @ [chunkAt slice cs j])"
      unfolding chunkLoop_step [OF cs True] next_i chunkAt_def ..
    also have "\<dots> = Some (Inr ((chunks @ [chunkAt slice cs j]) @
        map (chunkAt slice cs) [Suc j..<(length slice + cs - 1) div cs]))"
      by (rule less.hyps [OF dec])
    also have "\<dots> = Some (Inr (chunks @
        map (chunkAt slice cs) [j..<(length slice + cs - 1) div cs]))"
      using jlt by (simp add: upt_conv_Cons)
    finally show ?thesis .
  qed
qed

lemma concat_chunkAt: "0 < cs \<Longrightarrow> concat (map (chunkAt slice cs) [0..<m]) = take (m * cs) slice"
proof (induction m)
  case 0
  show ?case by simp
next
  case (Suc m)
  have "take (m * cs) slice @ take cs (drop (m * cs) slice) = take (m * cs + cs) slice"
    by (simp add: take_add)
  with Suc show ?case by (simp add: chunkAt_def add.commute)
qed

lemma chunkSizeOf_pos:
  assumes "1 \<le> W"
  shows "chunkSizeOf (int n) W = Inr (int ((n + nat W - 1) div nat W))"
proof -
  define w where "w = nat W"
  have w: "W = int w" "0 < w" using assms by (simp_all add: w_def)
  have "int n + int w - 1 = int (n + w - 1)" using w(2) by (simp add: of_nat_diff)
  then have "(int n + int w - 1) sdiv int w = int ((n + w - 1) div w)"
    using w(2) by (simp add: sdiv_nonneg zdiv_int)
  with w show ?thesis by (simp add: chunkSizeOf_def)
qed

lemma ceil_pos: "0 < n \<Longrightarrow> 0 < w \<Longrightarrow> 0 < (n + w - 1) div (w::nat)"
  by (simp add: div_greater_zero_iff)

lemma ceil_bounds:
  assumes "0 < (w::nat)"
  shows "n \<le> ((n + w - 1) div w) * w" and "0 < n \<Longrightarrow> ((n + w - 1) div w - 1) * w < n"
proof -
  let ?c = "(n + w - 1) div w"
  have d: "?c * w + (n + w - 1) mod w = n + w - 1" by simp
  have m: "(n + w - 1) mod w < w" using assms by simp
  from d m show "n \<le> ?c * w" by linarith
  assume n: "0 < n"
  then have "0 < ?c" using assms by (rule ceil_pos)
  then have "(?c - 1) * w + w = ?c * w"
    by (metis add.commute mult_Suc One_nat_def Suc_diff_1)
  with d show "(?c - 1) * w < n" using n assms by linarith
qed

lemma ceil_ceil_le:
  assumes "0 < (w::nat)" "0 < n"
  shows "(n + (n + w - 1) div w - 1) div ((n + w - 1) div w) \<le> w"
proof -
  let ?c = "(n + w - 1) div w"
  have c: "0 < ?c" using assms(2,1) by (rule ceil_pos)
  have "\<not> w < (n + ?c - 1) div ?c"
    using lt_ceil_iff [OF c, of w n] ceil_bounds(1) [OF assms(1), of n]
    by (simp add: mult.commute)
  then show ?thesis by simp
qed

lemma chunksOf_zero: "chunksOf slice 0 = Some (Inl IntegerDivideByZero)"
  by (simp add: chunksOf_def chunkSizeOf_def)

lemma chunksOf_neg: "W < 0 \<Longrightarrow> chunksOf slice W = Some (Inl MakeSliceCapOutOfRange)"
  by (simp add: chunksOf_def chunkSizeOf_def)

lemma chunksOf_empty: "1 \<le> W \<Longrightarrow> chunksOf [] W = Some (Inr [])"
  using chunkLoop_done [of "[]" 0 _ "[]"]
  by (simp add: chunksOf_def chunkSizeOf_def split: sum.splits)

lemma chunksOf_pos:
  assumes "1 \<le> W" "slice \<noteq> []"
  defines "cs \<equiv> (length slice + nat W - 1) div nat W"
  shows "chunksOf slice W =
         Some (Inr (map (chunkAt slice cs) [0..<(length slice + cs - 1) div cs]))"
proof -
  have cs: "0 < cs" unfolding cs_def using assms(1,2) by (intro ceil_pos) simp_all
  have "chunksOf slice W = chunkLoop slice (int cs) (int (0 * cs)) []"
    using assms(1) by (simp add: chunksOf_def chunkSizeOf_pos cs_def)
  also have "\<dots> = Some (Inr ([] @ map (chunkAt slice cs) [0..<(length slice + cs - 1) div cs]))"
    by (rule chunkLoop_from [OF cs])
  finally show ?thesis by simp
qed

lemma chunkAt_nonempty: "0 < cs \<Longrightarrow> k * cs < length slice \<Longrightarrow> chunkAt slice cs k \<noteq> []"
  by (simp add: chunkAt_def)

lemma chunksOf_pos_props:
  assumes W: "1 \<le> W" and ne: "slice \<noteq> []"
  defines "cs \<equiv> (length slice + nat W - 1) div nat W"
  defines "chunks \<equiv> map (chunkAt slice cs) [0..<(length slice + cs - 1) div cs]"
  shows "chunksOf slice W = Some (Inr chunks)"
    and "0 < cs"
    and "length chunks = (length slice + cs - 1) div cs"
    and "concat chunks = slice"
    and "\<forall>chunk \<in> set chunks. chunk \<noteq> []"
    and "1 \<le> length chunks"
    and "int (length chunks) \<le> W"
proof -
  have w: "0 < nat W" using W by simp
  have n: "0 < length slice" using ne by simp
  show "chunksOf slice W = Some (Inr chunks)"
    unfolding chunks_def cs_def by (rule chunksOf_pos [OF W ne])
  show cs: "0 < cs" unfolding cs_def using n w by (rule ceil_pos)
  show len: "length chunks = (length slice + cs - 1) div cs" by (simp add: chunks_def)
  have "length slice \<le> ((length slice + cs - 1) div cs) * cs" by (rule ceil_bounds(1) [OF cs])
  then show "concat chunks = slice"
    unfolding chunks_def concat_chunkAt [OF cs] by simp
  show "\<forall>chunk \<in> set chunks. chunk \<noteq> []"
  proof
    fix chunk assume "chunk \<in> set chunks"
    then obtain k where k: "k < (length slice + cs - 1) div cs" "chunk = chunkAt slice cs k"
      by (auto simp: chunks_def)
    from k(1) have "k * cs < length slice" using lt_ceil_iff [OF cs] by blast
    with k(2) cs show "chunk \<noteq> []" by (simp add: chunkAt_nonempty)
  qed
  have "0 < (length slice + cs - 1) div cs" using n cs by (rule ceil_pos)
  with len show "1 \<le> length chunks" by simp
  have "(length slice + cs - 1) div cs \<le> nat W"
    unfolding cs_def by (rule ceil_ceil_le [OF w n])
  with len W show "int (length chunks) \<le> W" by simp
qed

lemma chunksOf_Inr:
  assumes "chunksOf slice W = Some (Inr chunks)"
  shows "1 \<le> W" and "concat chunks = slice" and "int (length chunks) \<le> W"
proof -
  show W: "1 \<le> W"
  proof (rule ccontr)
    assume "\<not> 1 \<le> W"
    then consider "W = 0" | "W < 0" by linarith
    then show False using assms by cases (simp_all add: chunksOf_zero chunksOf_neg)
  qed
  show "concat chunks = slice"
  proof (cases "slice = []")
    case True
    with W assms show ?thesis by (simp add: chunksOf_empty)
  next
    case False
    from chunksOf_pos_props(1,4) [OF W False] assms show ?thesis by simp
  qed
  show "int (length chunks) \<le> W"
  proof (cases "slice = []")
    case True
    with W assms show ?thesis by (simp add: chunksOf_empty)
  next
    case False
    from chunksOf_pos_props(1,7) [OF W False] assms show ?thesis by simp
  qed
qed

subsection \<open>The number of threads\<close>

lemma clamp_nonpos: "1 \<le> maxThreads \<Longrightarrow> numOfThreads \<le> 0 \<Longrightarrow>
    clampNumOfThreads maxThreads len numOfThreads = 1"
  by (simp add: clampNumOfThreads_def)

lemma clamp_empty_pos: "1 \<le> maxThreads \<Longrightarrow> 0 < numOfThreads \<Longrightarrow>
    clampNumOfThreads maxThreads 0 numOfThreads = 0"
  by (simp add: clampNumOfThreads_def)

lemma clamp_range: "1 \<le> maxThreads \<Longrightarrow> 1 \<le> len \<Longrightarrow>
    1 \<le> clampNumOfThreads maxThreads len numOfThreads \<and>
    clampNumOfThreads maxThreads len numOfThreads \<le> len \<and>
    clampNumOfThreads maxThreads len numOfThreads \<le> maxThreads"
  by (simp add: clampNumOfThreads_def Let_def)

subsection \<open>The whole function\<close>

lemma subseq_concat_map:
  "(\<And>c. c \<in> set cs \<Longrightarrow> subseq (f c) c) \<Longrightarrow> subseq (concat (map f cs)) (concat cs)"
  by (induction cs) (simp_all add: list_emb_append_mono)

lemma removeDuplicate_eq: "removeDuplicate items comparator = leftToRightDistinct comparator items"
  by (simp add: removeDuplicate_def removeDuplicateLoop_foldl leftToRightDistinct_def)

lemma UniqueByParallel_Inr:
  assumes "chunksOf slice (clampNumOfThreads maxThreads (int (length slice)) numOfThreads) = Some (Inr chunks)"
    and "validSchedule sched (numWorkers maxThreads slice numOfThreads)"
  shows "UniqueByParallel maxThreads sched slice numOfThreads comparator =
         Some (Inr (firstOccurrences [] (concat (map (leftToRightDistinct comparator) chunks))))"
proof -
  have "numWorkers maxThreads slice numOfThreads = length chunks"
    using assms(1) by (simp add: numWorkers_def)
  with assms(2) have "dispatch sched comparator chunks =
      map (\<lambda>chunk. removeDuplicate chunk comparator) chunks"
    by (simp add: dispatch_valid)
  then show ?thesis using assms(1)
    by (simp add: UniqueByParallel_def merge_eq removeDuplicate_eq)
qed

text \<open>The chunk loop ends on every input, so a call returns or panics.\<close>

lemma chunksOf_terminates: "chunksOf slice W \<noteq> None"
proof -
  consider "W = 0" | "W < 0" | "1 \<le> W" "slice = []" | "1 \<le> W" "slice \<noteq> []" by linarith
  then show ?thesis
    by cases (simp_all add: chunksOf_zero chunksOf_neg chunksOf_empty chunksOf_pos)
qed

lemma UniqueByParallel_terminates:
  "UniqueByParallel maxThreads sched slice numOfThreads comparator \<noteq> None"
  using chunksOf_terminates [of slice "clampNumOfThreads maxThreads (int (length slice)) numOfThreads"]
  by (auto simp: UniqueByParallel_def split: option.splits sum.splits)

text \<open>The output does not depend on the order in which the workers finish.\<close>

lemma UniqueByParallel_schedule_independent:
  assumes "validSchedule sched (numWorkers maxThreads slice numOfThreads)"
    and "validSchedule sched' (numWorkers maxThreads slice numOfThreads)"
  shows "UniqueByParallel maxThreads sched slice numOfThreads comparator =
         UniqueByParallel maxThreads sched' slice numOfThreads comparator"
proof (cases "chunksOf slice (clampNumOfThreads maxThreads (int (length slice)) numOfThreads)")
  case None
  then show ?thesis by (simp add: UniqueByParallel_def)
next
  case (Some r)
  show ?thesis
  proof (cases r)
    case (Inl p)
    with Some show ?thesis by (simp add: UniqueByParallel_def)
  next
    case (Inr chunks)
    with Some have c: "chunksOf slice
        (clampNumOfThreads maxThreads (int (length slice)) numOfThreads) = Some (Inr chunks)"
      by simp
    show ?thesis
      unfolding UniqueByParallel_Inr [OF c assms(1)] UniqueByParallel_Inr [OF c assms(2)] ..
  qed
qed

lemma UniqueByParallel_Inr_D:
  assumes "UniqueByParallel maxThreads sched slice numOfThreads comparator = Some (Inr out)"
  obtains chunks where
    "chunksOf slice (clampNumOfThreads maxThreads (int (length slice)) numOfThreads) = Some (Inr chunks)"
  using assms by (auto simp: UniqueByParallel_def split: option.splits sum.splits)

lemma out_subseq:
  assumes "concat chunks = slice"
  shows "subseq (firstOccurrences [] (concat (map (leftToRightDistinct comparator) chunks))) slice"
proof -
  let ?mid = "concat (map (leftToRightDistinct comparator) chunks)"
  have "subseq (firstOccurrences [] ?mid) ?mid" by (rule firstOccurrences_subseq)
  moreover have "subseq ?mid (concat chunks)"
    by (rule subseq_concat_map) (rule leftToRightDistinct_subseq)
  ultimately show ?thesis using assms by (metis subseq_order.order_trans)
qed

lemma leftToRightDistinct_snoc:
  "leftToRightDistinct comparator (xs @ [x]) =
     (if (\<exists>r \<in> set (leftToRightDistinct comparator xs). comparator x r)
      then leftToRightDistinct comparator xs
      else leftToRightDistinct comparator xs @ [x])"
  by (simp add: leftToRightDistinct_def keepIfUnmatched_def)

lemma chunksOf_one:
  assumes "slice \<noteq> []"
  shows "chunksOf slice 1 = Some (Inr [slice])"
proof -
  have n: "0 < length slice" using assms by simp
  then have "(length slice + length slice - 1) div length slice = 1"
    by (intro div_nat_eqI) simp_all
  then have "[0..<(length slice + length slice - 1) div length slice] = [0]" by simp
  with chunksOf_pos [of 1 slice, OF _ assms] show ?thesis
    by (simp add: chunkAt_def)
qed

lemma subslice_chunkAt:
  assumes "0 < cs" "i * cs < length slice"
  shows "subslice slice (int i * int cs) (min ((int i + 1) * int cs) (int (length slice))) =
         Inr (chunkAt slice cs i)"
proof -
  have a: "int i * int cs = int (i * cs)" by simp
  have b: "(int i + 1) * int cs = int (i * cs) + int cs" by (simp add: algebra_simps)
  have "min (int (i * cs) + int cs) (int (length slice)) =
        (if int (i * cs) + int cs > int (length slice) then int (length slice)
         else int (i * cs) + int cs)"
    by (simp add: min_def)
  then show ?thesis unfolding a b chunkAt_def using subslice_step [OF assms] by simp
qed

lemma collect_Nil: "collect [] rs = []"
  using collect_length [of "[]" rs] by simp

lemma merge_Nil: "merge [] = []"
  by (simp add: merge_def)

lemma UniqueByParallel_empty:
  assumes "1 \<le> maxThreads"
  shows "UniqueByParallel maxThreads sched [] numOfThreads comparator =
         (if numOfThreads \<le> 0 then Some (Inr []) else Some (Inl IntegerDivideByZero))"
proof (cases "numOfThreads \<le> 0")
  case True
  with assms have "clampNumOfThreads maxThreads (int (length [])) numOfThreads = 1"
    by (simp add: clamp_nonpos)
  with True show ?thesis
    by (simp add: UniqueByParallel_def chunksOf_empty dispatch_def collect_Nil merge_Nil)
next
  case False
  with assms have "clampNumOfThreads maxThreads (int (length [])) numOfThreads = 0"
    by (simp add: clamp_empty_pos)
  with False show ?thesis
    by (simp add: UniqueByParallel_def chunksOf_zero)
qed

lemma clamping_nonempty:
  assumes "slice \<noteq> []"
  shows "numOfThreads \<le> 0 \<Longrightarrow>
           clampNumOfThreads maxThreads (int (length slice)) numOfThreads =
           clampNumOfThreads maxThreads (int (length slice)) 1"
    and "numOfThreads > int (length slice) \<Longrightarrow>
           clampNumOfThreads maxThreads (int (length slice)) numOfThreads =
           clampNumOfThreads maxThreads (int (length slice)) (int (length slice))"
    and "numOfThreads > maxThreads \<Longrightarrow>
           clampNumOfThreads maxThreads (int (length slice)) numOfThreads =
           clampNumOfThreads maxThreads (int (length slice)) maxThreads"
proof -
  have n: "1 \<le> int (length slice)" using assms by (cases slice) simp_all
  show "numOfThreads \<le> 0 \<Longrightarrow>
           clampNumOfThreads maxThreads (int (length slice)) numOfThreads =
           clampNumOfThreads maxThreads (int (length slice)) 1"
    using n assms by (simp add: clampNumOfThreads_def)
  show "numOfThreads > int (length slice) \<Longrightarrow>
           clampNumOfThreads maxThreads (int (length slice)) numOfThreads =
           clampNumOfThreads maxThreads (int (length slice)) (int (length slice))"
    using n assms by (simp add: clampNumOfThreads_def)
  show "numOfThreads > maxThreads \<Longrightarrow>
           clampNumOfThreads maxThreads (int (length slice)) numOfThreads =
           clampNumOfThreads maxThreads (int (length slice)) maxThreads"
    using n assms by (auto simp add: clampNumOfThreads_def Let_def)
qed

lemma UniqueByParallel_clamp_cong:
  "clampNumOfThreads maxThreads (int (length slice)) numOfThreads =
   clampNumOfThreads maxThreads (int (length slice)) numOfThreads' \<Longrightarrow>
   UniqueByParallel maxThreads sched slice numOfThreads comparator =
   UniqueByParallel maxThreads sched slice numOfThreads' comparator"
  by (simp add: UniqueByParallel_def)

text \<open>On a non-empty input the clamping is as documented: a requested parallelism that
  is not positive behaves as 1, one above the length as the length, and one above the
  CPU count as the CPU count.\<close>

lemma clamping_nonempty_output:
  assumes "slice \<noteq> []"
  shows "numOfThreads \<le> 0 \<Longrightarrow>
           UniqueByParallel maxThreads sched slice numOfThreads comparator =
           UniqueByParallel maxThreads sched slice 1 comparator"
    and "numOfThreads > int (length slice) \<Longrightarrow>
           UniqueByParallel maxThreads sched slice numOfThreads comparator =
           UniqueByParallel maxThreads sched slice (int (length slice)) comparator"
    and "numOfThreads > maxThreads \<Longrightarrow>
           UniqueByParallel maxThreads sched slice numOfThreads comparator =
           UniqueByParallel maxThreads sched slice maxThreads comparator"
  by (rule UniqueByParallel_clamp_cong, rule clamping_nonempty [OF assms], assumption)+
lemma firstOccurrences_snoc:
  "firstOccurrences before (xs @ [x]) =
     firstOccurrences before xs @ (if x \<in> set before \<union> set xs then [] else [x])"
  by (auto simp add: firstOccurrences_append firstOccurrences_set)

lemma firstOccurrences_nth:
  "firstOccurrences [] xs =
     map ((!) xs) (filter (\<lambda>i. xs ! i \<notin> set (take i xs)) [0..<length xs])"
proof (induction xs rule: rev_induct)
  case Nil
  show ?case by simp
next
  case (snoc x xs)
  have f: "filter (\<lambda>i. (xs @ [x]) ! i \<notin> set (take i (xs @ [x]))) [0..<length xs] =
           filter (\<lambda>i. xs ! i \<notin> set (take i xs)) [0..<length xs]"
    by (rule filter_cong) (simp_all add: nth_append)
  have m: "map ((!) (xs @ [x])) (filter (\<lambda>i. xs ! i \<notin> set (take i xs)) [0..<length xs]) =
           map ((!) xs) (filter (\<lambda>i. xs ! i \<notin> set (take i xs)) [0..<length xs])"
    by (rule map_cong) (simp_all add: nth_append)
  have l: "(xs @ [x]) ! length xs \<notin> set (take (length xs) (xs @ [x])) \<longleftrightarrow> x \<notin> set xs"
    by simp
  have "map ((!) (xs @ [x]))
          (filter (\<lambda>i. (xs @ [x]) ! i \<notin> set (take i (xs @ [x]))) [0..<length (xs @ [x])]) =
        map ((!) (xs @ [x]))
          (filter (\<lambda>i. (xs @ [x]) ! i \<notin> set (take i (xs @ [x]))) [0..<length xs]) @
        (if x \<notin> set xs then [x] else [])"
    using l by (simp del: take_append)
  also have "\<dots> = firstOccurrences [] xs @ (if x \<notin> set xs then [x] else [])"
    unfolding f m snoc.IH ..
  also have "\<dots> = firstOccurrences [] (xs @ [x])"
    unfolding firstOccurrences_snoc by simp
  finally show ?case ..
qed

lemma received_length: "validSchedule sched n \<Longrightarrow> length (received sched comparator chunks) = n"
  unfolding validSchedule_def received_def
  by (metis length_map length_sort length_upt diff_zero)

subsection \<open>The explicit store\<close>

lemma ownedFrom_readable: "ownedFrom n h r \<Longrightarrow> readable h r"
  by (auto simp: ownedFrom_def readable_def)

lemma ownedFrom_nil: "ownedFrom n h nilSlice"
  by (simp add: ownedFrom_def nilSlice_def)

lemma viewOf_nil: "viewOf h nilSlice = []"
  by (simp add: viewOf_def nilSlice_def)

lemma viewOf_length: "readable h s \<Longrightarrow> length (viewOf h s) = slen s"
  by (auto simp: readable_def viewOf_def)

lemma viewOf_nth: "readable h s \<Longrightarrow> i < slen s \<Longrightarrow> viewOf h s ! i = elemAt h s i"
  by (auto simp: readable_def viewOf_def elemAt_def)

lemma viewOf_map_elemAt: "readable h s \<Longrightarrow> map (elemAt h s) [0..<slen s] = viewOf h s"
  by (rule nth_equalityI) (simp_all add: viewOf_length viewOf_nth)

lemma same_below_nth: "take n h' = take n h \<Longrightarrow> p < n \<Longrightarrow> h' ! p = h ! p"
  by (metis nth_take)

lemma same_below_trans:
  "take n h' = take n h \<Longrightarrow> take m h'' = take m h' \<Longrightarrow> n \<le> m \<Longrightarrow> take n h'' = take n h"
  by (metis min.absorb1 take_take)

lemma take_snoc_update:
  assumes "k < length ys"
  shows "take (Suc k) (ys[k := x]) = take k ys @ [x]"
  using assms by (simp add: take_Suc_conv_app_nth)

lemma goAppend_props:
  assumes n: "n \<le> length h" and own: "ownedFrom n h r" and app: "goAppend rt h r x = (h', r')"
  shows "take n h' = take n h" and "length h \<le> length h'" and "ownedFrom n h' r'"
    and "viewOf h' r' = viewOf h r @ [x]"
proof -
  have "take n h' = take n h \<and> length h \<le> length h' \<and> ownedFrom n h' r' \<and>
        viewOf h' r' = viewOf h r @ [x]"
  proof (cases "slen r < scap r")
    case True
    with own have b: "n \<le> base r" "base r < length h" "offs r + scap r \<le> length (h ! base r)"
      by (auto simp: ownedFrom_def)
    from True app have h': "h' = h[base r := (h ! base r)[offs r + slen r := x]]"
      and r': "r' = r\<lparr>slen := slen r + 1\<rparr>"
      by (simp_all add: goAppend_def)
    have 1: "take n h' = take n h" unfolding h' using b(1) by simp
    have 2: "length h \<le> length h'" unfolding h' by simp
    have 3: "ownedFrom n h' r'" unfolding h' r' using True b by (simp add: ownedFrom_def)
    have k: "slen r < length (drop (offs r) (h ! base r))" using True b(3) by simp
    have "viewOf h' r' = take (Suc (slen r)) (drop (offs r) ((h ! base r)[offs r + slen r := x]))"
      unfolding h' r' using b(2) by (simp add: viewOf_def)
    also have "\<dots> = take (Suc (slen r)) ((drop (offs r) (h ! base r))[slen r := x])"
      by (simp add: drop_update_swap)
    also have "\<dots> = take (slen r) (drop (offs r) (h ! base r)) @ [x]"
      using k by (rule take_snoc_update)
    finally have 4: "viewOf h' r' = viewOf h r @ [x]" by (simp add: viewOf_def)
    from 1 2 3 4 show ?thesis by blast
  next
    case False
    define c where "c = max (slen r + 1) (growCap rt (scap r))"
    define new where "new = viewOf h r @ [x] @ replicate (c - (slen r + 1)) (zero rt)"
    from False app have h': "h' = h @ [new]"
      and r': "r' = \<lparr>base = length h, offs = 0, slen = slen r + 1, scap = c\<rparr>"
      by (simp_all add: goAppend_def Let_def c_def new_def)
    have len: "length (viewOf h r) = slen r"
      using own by (intro viewOf_length ownedFrom_readable)
    have c: "slen r + 1 \<le> c" by (simp add: c_def)
    have 1: "take n h' = take n h" unfolding h' using n by simp
    have 2: "length h \<le> length h'" unfolding h' by simp
    have "length new = c" unfolding new_def using len c by simp
    then have 3: "ownedFrom n h' r'" unfolding h' r' using n c by (simp add: ownedFrom_def)
    have 4: "viewOf h' r' = viewOf h r @ [x]"
      unfolding h' r' using len by (simp add: viewOf_def new_def)
    from 1 2 3 4 show ?thesis by blast
  qed
  then show "take n h' = take n h" and "length h \<le> length h'" and "ownedFrom n h' r'"
    and "viewOf h' r' = viewOf h r @ [x]" by blast+
qed

lemma removeDuplicateLoopS_props:
  assumes "n \<le> length h" and "ownedFrom n h result" and "is = [] \<or> base items < n"
    and "removeDuplicateLoopS rt comparator items h result is = (h', r')"
  shows "take n h' = take n h \<and> length h \<le> length h' \<and> ownedFrom n h' r' \<and>
         viewOf h' r' =
           removeDuplicateLoop comparator (viewOf h result) (map (elemAt h items) is)"
  using assms
proof (induction "is" arbitrary: h result)
  case Nil
  then show ?case by simp
next
  case (Cons i "is")
  from Cons.prems(3) have b: "base items < n" by simp
  let ?item = "elemAt h items i"
  show ?case
  proof (cases "seenIn comparator ?item (viewOf h result)")
    case True
    with Cons.prems(4) have
      "removeDuplicateLoopS rt comparator items h result is = (h', r')" by simp
    from Cons.IH [OF Cons.prems(1,2) _ this] b True show ?thesis by simp
  next
    case False
    obtain h1 r1 where a: "goAppend rt h result ?item = (h1, r1)" by (cases "goAppend rt h result ?item")
    note p = goAppend_props [OF Cons.prems(1,2) a]
    from False a Cons.prems(4) have
      run: "removeDuplicateLoopS rt comparator items h1 r1 is = (h', r')" by simp
    have n1: "n \<le> length h1" using Cons.prems(1) p(2) by simp
    from Cons.IH [OF n1 p(3) _ run] b have ih:
      "take n h' = take n h1" "length h1 \<le> length h'" "ownedFrom n h' r'"
      "viewOf h' r' = removeDuplicateLoop comparator (viewOf h1 r1) (map (elemAt h1 items) is)"
      by simp_all
    have same: "h1 ! base items = h ! base items" using p(1) b by (rule same_below_nth)
    then have el: "map (elemAt h1 items) is = map (elemAt h items) is"
      by (simp add: elemAt_def)
    have "take n h' = take n h" using ih(1) p(1) by simp
    moreover have "length h \<le> length h'" using ih(2) p(2) by simp
    moreover have "viewOf h' r' =
        removeDuplicateLoop comparator (viewOf h result) (map (elemAt h items) (i # is))"
      using ih(4) False unfolding p(4) el by simp
    ultimately show ?thesis using ih(3) by blast
  qed
qed

lemma removeDuplicateS_props:
  assumes "readable h items" and "slen items = 0 \<or> base items < length h"
    and "removeDuplicateS rt h items comparator = (h', r')"
  shows "take (length h) h' = h" and "length h \<le> length h'" and "ownedFrom (length h) h' r'"
    and "viewOf h' r' = removeDuplicate (viewOf h items) comparator"
proof -
  have e: "[0..<slen items] = [] \<or> base items < length h" using assms(2) by auto
  from removeDuplicateLoopS_props [OF order_refl ownedFrom_nil e assms(3) [unfolded removeDuplicateS_def]]
  have "take (length h) h' = take (length h) h" "length h \<le> length h'"
    "ownedFrom (length h) h' r'"
    "viewOf h' r' = removeDuplicateLoop comparator (viewOf h nilSlice)
        (map (elemAt h items) [0..<slen items])"
    by simp_all
  then show "take (length h) h' = h" and "length h \<le> length h'"
    and "ownedFrom (length h) h' r'"
    and "viewOf h' r' = removeDuplicate (viewOf h items) comparator"
    using assms(1) by (simp_all add: viewOf_nil viewOf_map_elemAt removeDuplicate_def)
qed

lemma placed_same_below:
  assumes "take n h' = take n h" and "n \<le> length h" and "n \<le> length h'" and "placed n h s"
  shows "placed n h' s" and "viewOf h' s = viewOf h s"
proof -
  have "placed n h' s \<and> viewOf h' s = viewOf h s"
  proof (cases "slen s = 0")
    case True
    then show ?thesis by (simp add: placed_def readable_def viewOf_def)
  next
    case False
    with assms(4) have b: "base s < n" "offs s + slen s \<le> length (h ! base s)"
      by (auto simp: placed_def readable_def)
    have "h' ! base s = h ! base s" using assms(1) b(1) by (rule same_below_nth)
    with b assms(3) show ?thesis by (simp add: placed_def readable_def viewOf_def)
  qed
  then show "placed n h' s" and "viewOf h' s = viewOf h s" by blast+
qed

lemma placed_mono: "placed n h s \<Longrightarrow> n \<le> m \<Longrightarrow> placed m h s"
  by (auto simp: placed_def)

lemma ownedFrom_placed: "ownedFrom n h r \<Longrightarrow> placed (length h) h r"
  by (auto simp: ownedFrom_def placed_def readable_def)

lemma mergeItemsS_props:
  assumes "n \<le> length h" and "ownedFrom n h result" and "is = [] \<or> base chunk < n"
    and "mergeItemsS rt chunk seen h result is = (seen', h', r')"
  shows "take n h' = take n h \<and> length h \<le> length h' \<and> ownedFrom n h' r' \<and>
         mergeItems seen (viewOf h result) (map (elemAt h chunk) is) = (seen', viewOf h' r')"
  using assms
proof (induction "is" arbitrary: seen h result)
  case Nil
  then show ?case by simp
next
  case (Cons i "is")
  from Cons.prems(3) have b: "base chunk < n" by simp
  let ?item = "elemAt h chunk i"
  show ?case
  proof (cases "seenAt seen ?item")
    case True
    with Cons.prems(4) have
      "mergeItemsS rt chunk seen h result is = (seen', h', r')" by simp
    from Cons.IH [OF Cons.prems(1,2) _ this] b True show ?thesis by simp
  next
    case False
    obtain h1 r1 where a: "goAppend rt h result ?item = (h1, r1)"
      by (cases "goAppend rt h result ?item")
    note p = goAppend_props [OF Cons.prems(1,2) a]
    from False a Cons.prems(4) have
      run: "mergeItemsS rt chunk (seen(?item \<mapsto> True)) h1 r1 is = (seen', h', r')" by simp
    have n1: "n \<le> length h1" using Cons.prems(1) p(2) by simp
    have e: "is = [] \<or> base chunk < n" using b by simp
    from Cons.IH [OF n1 p(3) e run] have ih:
      "take n h' = take n h1" "length h1 \<le> length h'" "ownedFrom n h' r'"
      "mergeItems (seen(?item \<mapsto> True)) (viewOf h1 r1) (map (elemAt h1 chunk) is) =
         (seen', viewOf h' r')"
      by blast+
    have same: "h1 ! base chunk = h ! base chunk" using p(1) b by (rule same_below_nth)
    then have el: "map (elemAt h1 chunk) is = map (elemAt h chunk) is"
      by (simp add: elemAt_def)
    have "take n h' = take n h" using ih(1) p(1) by simp
    moreover have "length h \<le> length h'" using ih(2) p(2) by simp
    moreover have "mergeItems seen (viewOf h result) (map (elemAt h chunk) (i # is)) =
        (seen', viewOf h' r')"
      using ih(4) False unfolding p(4) el by simp
    ultimately show ?thesis using ih(3) by blast
  qed
qed

lemma mergeChunksS_props:
  assumes "n \<le> length h" and "ownedFrom n h result" and "\<forall>c \<in> set results. placed n h c"
    and "mergeChunksS rt seen h result results = (h', r')"
  shows "take n h' = take n h \<and> length h \<le> length h' \<and> ownedFrom n h' r' \<and>
         viewOf h' r' = mergeChunks seen (viewOf h result) (map (viewOf h) results)"
  using assms
proof (induction results arbitrary: seen h result)
  case Nil
  then show ?case by simp
next
  case (Cons chunk results)
  obtain seen1 h1 r1 where
    m: "mergeItemsS rt chunk seen h result [0..<slen chunk] = (seen1, h1, r1)"
    by (cases "mergeItemsS rt chunk seen h result [0..<slen chunk]")
  from Cons.prems(3) have pc: "placed n h chunk" by simp
  then have e: "[0..<slen chunk] = [] \<or> base chunk < n" by (auto simp: placed_def)
  from mergeItemsS_props [OF Cons.prems(1,2) e m] have p:
    "take n h1 = take n h" "length h \<le> length h1" "ownedFrom n h1 r1"
    "mergeItems seen (viewOf h result) (map (elemAt h chunk) [0..<slen chunk]) =
       (seen1, viewOf h1 r1)"
    by simp_all
  have v: "map (elemAt h chunk) [0..<slen chunk] = viewOf h chunk"
    using pc by (intro viewOf_map_elemAt) (simp add: placed_def)
  have n1: "n \<le> length h1" using Cons.prems(1) p(2) by simp
  have rest: "\<forall>c \<in> set results. placed n h1 c"
    using placed_same_below(1) [OF p(1) Cons.prems(1) n1] Cons.prems(3) by simp
  have views: "map (viewOf h1) results = map (viewOf h) results"
    using placed_same_below(2) [OF p(1) Cons.prems(1) n1] Cons.prems(3) by simp
  from m Cons.prems(4) have run: "mergeChunksS rt seen1 h1 r1 results = (h', r')" by simp
  from Cons.IH [OF n1 p(3) rest run] have ih:
    "take n h' = take n h1" "length h1 \<le> length h'" "ownedFrom n h' r'"
    "viewOf h' r' = mergeChunks seen1 (viewOf h1 r1) (map (viewOf h1) results)"
    by simp_all
  have "take n h' = take n h" using ih(1) p(1) by simp
  moreover have "length h \<le> length h'" using ih(2) p(2) by simp
  moreover have "viewOf h' r' =
      mergeChunks seen (viewOf h result) (map (viewOf h) (chunk # results))"
    using ih(4) p(4) unfolding v views by simp
  ultimately show ?case using ih(3) by blast
qed

lemma mergeS_props:
  assumes "\<forall>c \<in> set results. placed (length h) h c" and "mergeS rt h results = (h', r')"
  shows "take (length h) h' = h" and "ownedFrom (length h) h' r'"
    and "viewOf h' r' = merge (map (viewOf h) results)"
  using mergeChunksS_props [OF order_refl ownedFrom_nil assms(1) assms(2) [unfolded mergeS_def]]
  by (simp_all add: merge_def viewOf_nil)

lemma ownedFrom_fresh: "ownedFrom n h r \<Longrightarrow> freshFrom n r"
  by (auto simp: ownedFrom_def freshFrom_def)

lemma workersS_props:
  assumes "\<forall>c \<in> set chunks. placed (length h) h c" and "\<forall>i \<in> set sched. i < length chunks"
    and "workersS rt comparator chunks h sched = (h', msgs)"
  shows "take (length h) h' = h \<and> length h \<le> length h' \<and> map indexS msgs = sched \<and>
         (\<forall>m \<in> set msgs. placed (length h') h' (dataS m) \<and> freshFrom (length h) (dataS m) \<and>
            viewOf h' (dataS m) = removeDuplicate (viewOf h (chunks ! indexS m)) comparator)"
  using assms
proof (induction sched arbitrary: h h' msgs)
  case Nil
  then show ?case by simp
next
  case (Cons i sched)
  obtain h1 r where w: "removeDuplicateS rt h (chunks ! i) comparator = (h1, r)"
    by (cases "removeDuplicateS rt h (chunks ! i) comparator")
  obtain h2 msgs' where ws: "workersS rt comparator chunks h1 sched = (h2, msgs')"
    by (cases "workersS rt comparator chunks h1 sched")
  from w ws Cons.prems(3) have res: "h' = h2" "msgs = \<lparr>indexS = i, dataS = r\<rparr> # msgs'"
    by simp_all
  from Cons.prems(2) have i: "i < length chunks" by simp
  with Cons.prems(1) have ci: "placed (length h) h (chunks ! i)" by simp
  then have ci': "readable h (chunks ! i)" "slen (chunks ! i) = 0 \<or> base (chunks ! i) < length h"
    by (simp_all add: placed_def)
  note p = removeDuplicateS_props [OF ci' w]
  have t1: "take (length h) h1 = take (length h) h" using p(1) by simp
  have chunks1: "\<forall>c \<in> set chunks. placed (length h1) h1 c"
    using placed_same_below(1) [OF t1 order_refl p(2)] Cons.prems(1) p(2)
    by (blast intro: placed_mono)
  have views1: "\<forall>c \<in> set chunks. viewOf h1 c = viewOf h c"
    using placed_same_below(2) [OF t1 order_refl p(2)] Cons.prems(1) by blast
  from Cons.prems(2) have sched: "\<forall>i \<in> set sched. i < length chunks" by simp
  from Cons.IH [OF chunks1 sched ws] have ih:
    "take (length h1) h2 = h1" "length h1 \<le> length h2" "map indexS msgs' = sched"
    "\<forall>m \<in> set msgs'. placed (length h2) h2 (dataS m) \<and> freshFrom (length h1) (dataS m) \<and>
        viewOf h2 (dataS m) = removeDuplicate (viewOf h1 (chunks ! indexS m)) comparator"
    by blast+
  have t2: "take (length h1) h2 = take (length h1) h1" using ih(1) by simp
  have a: "take (length h) h2 = h"
    using same_below_trans [OF t1 t2 p(2)] by simp
  have b: "length h \<le> length h2" using p(2) ih(2) by simp
  have r1: "placed (length h1) h1 r" using p(3) by (rule ownedFrom_placed)
  have r2: "placed (length h2) h2 r"
    using placed_same_below(1) [OF t2 order_refl ih(2) r1] ih(2) by (blast intro: placed_mono)
  have rv: "viewOf h2 r = removeDuplicate (viewOf h (chunks ! i)) comparator"
    using placed_same_below(2) [OF t2 order_refl ih(2) r1] p(4) by simp
  have rf: "freshFrom (length h) r" using p(3) by (rule ownedFrom_fresh)
  have old: "\<forall>m \<in> set msgs'. placed (length h2) h2 (dataS m) \<and> freshFrom (length h) (dataS m) \<and>
        viewOf h2 (dataS m) = removeDuplicate (viewOf h (chunks ! indexS m)) comparator"
  proof
    fix m assume m: "m \<in> set msgs'"
    then have "indexS m \<in> set sched" using ih(3) by auto
    then have "chunks ! indexS m \<in> set chunks" using sched by simp
    then have "viewOf h1 (chunks ! indexS m) = viewOf h (chunks ! indexS m)"
      using views1 by blast
    moreover have "freshFrom (length h) (dataS m)"
      using ih(4) m p(2) by (auto simp: freshFrom_def)
    ultimately show "placed (length h2) h2 (dataS m) \<and> freshFrom (length h) (dataS m) \<and>
        viewOf h2 (dataS m) = removeDuplicate (viewOf h (chunks ! indexS m)) comparator"
      using ih(4) m by simp
  qed
  show ?case unfolding res using a b ih(3) r2 rf rv old by simp
qed

lemma collectS_length: "length (collectS results msgs) = length results"
  by (induction msgs arbitrary: results) simp_all

lemma collectS_other:
  "i \<notin> set (map indexS msgs) \<Longrightarrow> collectS results msgs ! i = results ! i"
  by (induction msgs arbitrary: results) (auto simp: nth_list_update)

lemma collectS_nth:
  "distinct (map indexS msgs) \<Longrightarrow> m \<in> set msgs \<Longrightarrow> indexS m < length results \<Longrightarrow>
   collectS results msgs ! indexS m = dataS m"
proof (induction msgs arbitrary: results)
  case Nil
  then show ?case by simp
next
  case (Cons a msgs)
  show ?case
  proof (cases "m = a")
    case True
    with Cons.prems(1) have "indexS m \<notin> set (map indexS msgs)" by simp
    from collectS_other [OF this] True Cons.prems(3) show ?thesis by simp
  next
    case False
    with Cons.prems have "m \<in> set msgs" "distinct (map indexS msgs)"
      "indexS m < length (results[indexS a := dataS a])" by simp_all
    from Cons.IH [OF this(2,1,3)] show ?thesis by simp
  qed
qed

lemma validSchedule_distinct: "validSchedule sched n \<Longrightarrow> distinct sched"
  unfolding validSchedule_def by (metis distinct_sort distinct_upt)

lemma collectS_valid:
  assumes "validSchedule sched n" and "map indexS msgs = sched" and "i < n"
  shows "\<exists>m \<in> set msgs. indexS m = i \<and> collectS (replicate n nilSlice) msgs ! i = dataS m"
proof -
  from assms(1,3) have "i \<in> set sched" by (simp add: validSchedule_set)
  then obtain m where m: "m \<in> set msgs" "indexS m = i" using assms(2) by auto
  have "distinct (map indexS msgs)" unfolding assms(2) using assms(1) by (rule validSchedule_distinct)
  from collectS_nth [OF this m(1), of "replicate n nilSlice"] m assms(3) show ?thesis by auto
qed

lemma subsliceS_nat:
  assumes "a \<le> b" "b \<le> scap s"
  shows "subsliceS s (int a) (int b) =
         Inr \<lparr>base = base s, offs = offs s + a, slen = b - a, scap = scap s - a\<rparr>"
proof -
  have "nat (int b - int a) = b - a" by simp
  with assms show ?thesis by (simp add: subsliceS_def)
qed

lemma subsliceS_step:
  assumes "0 < cs" "a < slen s" "slen s \<le> scap s"
  shows "subsliceS s (int a)
           (if int a + int cs > int (slen s) then int (slen s) else int a + int cs) =
         Inr \<lparr>base = base s, offs = offs s + a,
              slen = min (a + cs) (slen s) - a, scap = scap s - a\<rparr>"
proof -
  let ?b = "min (a + cs) (slen s)"
  have e: "(if int a + int cs > int (slen s) then int (slen s) else int a + int cs) = int ?b"
    by (simp add: min_def)
  show ?thesis unfolding e using assms by (intro subsliceS_nat) simp_all
qed

lemma chunkLoopS_done:
  "slen s \<le> a \<Longrightarrow> chunkLoopS s chunkSize (int a) chunks = Some (Inr chunks)"
  by (subst chunkLoopS.simps) simp

lemma chunkLoopS_step:
  assumes "0 < cs" "a < slen s" "slen s \<le> scap s"
  shows "chunkLoopS s (int cs) (int a) chunks =
         chunkLoopS s (int cs) (int (a + cs))
           (chunks @ [\<lparr>base = base s, offs = offs s + a,
                       slen = min (a + cs) (slen s) - a, scap = scap s - a\<rparr>])"
proof -
  have "chunkLoopS s (int cs) (int a) chunks =
        (case subsliceS s (int a)
           (if int a + int cs > int (slen s) then int (slen s) else int a + int cs) of
           Inl p \<Rightarrow> Some (Inl p)
         | Inr chunk \<Rightarrow> chunkLoopS s (int cs) (int a + int cs) (chunks @ [chunk]))"
    using assms(2) by (subst chunkLoopS.simps) (simp add: Let_def)
  then show ?thesis unfolding subsliceS_step [OF assms] by simp
qed

lemma chunkLoopS_from:
  assumes cs: "0 < cs" and wf: "slen s \<le> scap s"
  shows "chunkLoopS s (int cs) (int (j * cs)) chunks =
         Some (Inr (chunks @ map (chunkHdrAt s cs) [j..<(slen s + cs - 1) div cs]))"
proof (induction "slen s - j * cs" arbitrary: j chunks rule: less_induct)
  case less
  show ?case
  proof (cases "j * cs < slen s")
    case False
    then have "\<not> j < (slen s + cs - 1) div cs" using lt_ceil_iff [OF cs] by blast
    then have "[j..<(slen s + cs - 1) div cs] = []" by simp
    moreover have "chunkLoopS s (int cs) (int (j * cs)) chunks = Some (Inr chunks)"
      using False by (intro chunkLoopS_done) simp
    ultimately show ?thesis by simp
  next
    case True
    then have jlt: "j < (slen s + cs - 1) div cs" using lt_ceil_iff [OF cs] by blast
    have dec: "slen s - Suc j * cs < slen s - j * cs" using True cs by simp
    have next_i: "j * cs + cs = Suc j * cs" by simp
    have "chunkLoopS s (int cs) (int (j * cs)) chunks =
          chunkLoopS s (int cs) (int (Suc j * cs)) (chunks @ [chunkHdrAt s cs j])"
      unfolding chunkLoopS_step [OF cs True wf] next_i chunkHdrAt_def ..
    also have "\<dots> = Some (Inr ((chunks @ [chunkHdrAt s cs j]) @
        map (chunkHdrAt s cs) [Suc j..<(slen s + cs - 1) div cs]))"
      by (rule less.hyps [OF dec])
    also have "\<dots> = Some (Inr (chunks @
        map (chunkHdrAt s cs) [j..<(slen s + cs - 1) div cs]))"
      using jlt by (simp add: upt_conv_Cons)
    finally show ?thesis .
  qed
qed

lemma sliceIn_readable: "sliceIn h s \<Longrightarrow> readable h s"
  by (auto simp: sliceIn_def readable_def)

lemma chunkHdrAt_view:
  assumes "sliceIn h s"
  shows "viewOf h (chunkHdrAt s cs k) = chunkAt (viewOf h s) cs k"
proof -
  have m: "min (k * cs + cs) (slen s) - k * cs = min cs (slen s - k * cs)" by simp
  have "chunkAt (viewOf h s) cs k =
        take cs (take (slen s - k * cs) (drop (k * cs) (drop (offs s) (h ! base s))))"
    by (simp add: chunkAt_def viewOf_def drop_take)
  also have "\<dots> = take (min cs (slen s - k * cs)) (drop (offs s + k * cs) (h ! base s))"
    by (simp add: add.commute)
  finally show ?thesis unfolding viewOf_def chunkHdrAt_def m by simp
qed

lemma chunkHdrAt_placed:
  assumes "sliceIn h s" and "k * cs < slen s"
  shows "placed (length h) h (chunkHdrAt s cs k)"
  using assms by (auto simp: sliceIn_def placed_def readable_def chunkHdrAt_def)

lemma chunksOfS_rel:
  assumes wf: "sliceIn h s" and W: "1 \<le> W"
  shows "\<exists>hs. chunksOfS s W = Some (Inr hs) \<and>
              chunksOf (viewOf h s) W = Some (Inr (map (viewOf h) hs)) \<and>
              (\<forall>c \<in> set hs. placed (length h) h c)"
proof (cases "slen s = 0")
  case True
  have v: "viewOf h s = []" using True by (simp add: viewOf_def)
  have "chunksOfS s W = Some (Inr [])"
    using W True chunkLoopS_done [of s 0 _ "[]"]
    by (simp add: chunksOfS_def chunkSizeOf_def split: sum.splits)
  moreover have "chunksOf (viewOf h s) W = Some (Inr [])"
    unfolding v using W by (rule chunksOf_empty)
  ultimately show ?thesis by simp
next
  case False
  have len: "length (viewOf h s) = slen s"
    using wf by (intro viewOf_length sliceIn_readable)
  then have ne: "viewOf h s \<noteq> []" using False by auto
  define cs where "cs = (slen s + nat W - 1) div nat W"
  define m where "m = (slen s + cs - 1) div cs"
  have cs: "0 < cs" unfolding cs_def using False W by (intro ceil_pos) simp_all
  have cap: "slen s \<le> scap s" using wf by (simp add: sliceIn_def)
  have "chunksOfS s W = chunkLoopS s (int cs) (int (0 * cs)) []"
    using W by (simp add: chunksOfS_def chunkSizeOf_pos cs_def)
  also have "\<dots> = Some (Inr ([] @ map (chunkHdrAt s cs) [0..<m]))"
    unfolding m_def by (rule chunkLoopS_from [OF cs cap])
  finally have 1: "chunksOfS s W = Some (Inr (map (chunkHdrAt s cs) [0..<m]))" by simp
  have "chunksOf (viewOf h s) W = Some (Inr (map (chunkAt (viewOf h s) cs) [0..<m]))"
    using chunksOf_pos [OF W ne] unfolding len cs_def m_def .
  also have "map (chunkAt (viewOf h s) cs) [0..<m] =
             map (viewOf h) (map (chunkHdrAt s cs) [0..<m])"
    by (simp add: chunkHdrAt_view [OF wf])
  finally have 2: "chunksOf (viewOf h s) W =
      Some (Inr (map (viewOf h) (map (chunkHdrAt s cs) [0..<m])))" .
  have 3: "\<forall>c \<in> set (map (chunkHdrAt s cs) [0..<m]). placed (length h) h c"
  proof
    fix c assume "c \<in> set (map (chunkHdrAt s cs) [0..<m])"
    then obtain k where k: "k < m" "c = chunkHdrAt s cs k" by auto
    from k(1) have "k * cs < slen s" unfolding m_def using lt_ceil_iff [OF cs] by blast
    with wf show "placed (length h) h c" unfolding k(2) by (rule chunkHdrAt_placed)
  qed
  from 1 2 3 show ?thesis by blast
qed

lemma chunksOfS_panics:
  assumes "\<not> 1 \<le> W" and "length xs = slen s"
  shows "\<exists>p. chunksOfS s W = Some (Inl p) \<and> chunksOf xs W = Some (Inl p)"
proof -
  from assms(1) consider "W = 0" | "W < 0" by linarith
  then show ?thesis
    by cases (simp_all add: chunksOfS_def chunksOf_def chunkSizeOf_def)
qed

subsection \<open>The dispatcher\<close>

lemma filter_update_length:
  "i < length xs \<Longrightarrow>
   length (filter P (xs[i := y])) + (if P (xs ! i) then 1 else 0) =
   length (filter P xs) + (if P y then 1 else 0)"
proof (induction xs arbitrary: i)
  case Nil
  then show ?case by simp
next
  case (Cons x xs)
  show ?case
  proof (cases i)
    case 0
    then show ?thesis by simp
  next
    case (Suc j)
    with Cons.prems have "j < length xs" by simp
    from Cons.IH [OF this] Suc show ?thesis by simp
  qed
qed

lemma notStarted_update:
  "NotStarted \<notin> set ws \<Longrightarrow> w \<noteq> NotStarted \<Longrightarrow> NotStarted \<notin> set (ws[i := w])"
  by (metis insert_iff set_update_subset_insert subsetD)

lemma dispatcherInv_start: "dispatcherInv comparator chunks (dispatcherStart chunks)"
  by (simp add: dispatcherInv_def dispatcherStart_def mainInv_def delivered_def busy_def)

lemma inv_Spawn:
  assumes inv: "dispatcherInv comparator chunks s"
    and step: "dispatcherStep comparator chunks capacity Spawn s = Some s'"
  shows "dispatcherInv comparator chunks s'"
proof -
  from step obtain k where k: "mainAt s = Spawning k" "k < length chunks"
    and s': "s' = s\<lparr>mainAt := Spawning (k + 1), wgCounter := wgCounter s + 1,
                    workerAt := (workerAt s)[k := Running]\<rparr>"
    by (auto simp: dispatcherStep_def split: mainLine.splits if_splits)
  note i = inv [unfolded dispatcherInv_def]
  from i have len: "length (workerAt s) = length chunks" by simp
  from i k have m: "closerAt s = Unstarted" "collected s = []"
    "\<forall>i < length chunks. (workerAt s ! i = NotStarted) = (k \<le> i)"
    by (simp_all add: mainInv_def)
  from m(3) k(2) have idle: "workerAt s ! k = NotStarted" by simp
  from filter_update_length [of k "workerAt s" busy Running] len k(2) idle
  have cnt: "length (filter busy ((workerAt s)[k := Running])) =
             length (filter busy (workerAt s)) + 1"
    by (simp add: busy_def)
  have 1: "length (workerAt s') = length chunks" using len by (simp add: s')
  have 2: "wgCounter s' = length (filter busy (workerAt s'))" using i cnt by (simp add: s')
  have 3: "mainInv chunks s'"
    using k m len by (auto simp: s' mainInv_def nth_list_update)
  have 4: "chanClosed s' = (closerAt s' = Closed)" using i by (simp add: s')
  have 5: "chanClosed s' \<longrightarrow> (\<forall>i < length chunks. workerAt s' ! i = Exited)"
    using i m(1) by (simp add: s')
  have 6: "distinct (map index (chanQueue s') @ collected s')" using i by (simp add: s')
  have 7: "\<forall>i. (i \<in> delivered s') =
      (i < length chunks \<and> (workerAt s' ! i = Sent \<or> workerAt s' ! i = Exited))"
  proof
    fix j
    have d: "delivered s' = delivered s" by (simp add: s' delivered_def)
    from i have old: "(j \<in> delivered s) =
        (j < length chunks \<and> (workerAt s ! j = Sent \<or> workerAt s ! j = Exited))" by blast
    show "(j \<in> delivered s') =
        (j < length chunks \<and> (workerAt s' ! j = Sent \<or> workerAt s' ! j = Exited))"
      unfolding d old using idle len k(2) by (cases "j = k") (simp_all add: s')
  qed
  have 8: "\<forall>r \<in> set (chanQueue s'). r = worker comparator chunks (index r)"
    using i by (simp add: s')
  have 9: "\<forall>i \<in> set (collected s'). resultsArr s' ! i = removeDuplicate (chunks ! i) comparator"
    using i by (simp add: s')
  from 1 2 3 4 5 6 7 8 9 show ?thesis unfolding dispatcherInv_def by blast
qed

lemma inv_StartCloser:
  assumes inv: "dispatcherInv comparator chunks s"
    and step: "dispatcherStep comparator chunks capacity StartCloser s = Some s'"
  shows "dispatcherInv comparator chunks s'"
proof -
  from step have k: "mainAt s = Spawning (length chunks)"
    and s': "s' = s\<lparr>mainAt := Receiving, closerAt := Waiting,
                    resultsArr := replicate (length chunks) []\<rparr>"
    by (auto simp: dispatcherStep_def split: mainLine.splits if_splits)
  note i = inv [unfolded dispatcherInv_def]
  from i have len: "length (workerAt s) = length chunks" by simp
  from i k have m: "closerAt s = Unstarted" "collected s = []"
    "\<forall>i < length chunks. (workerAt s ! i = NotStarted) = (length chunks \<le> i)"
    by (simp_all add: mainInv_def)
  have none: "NotStarted \<notin> set (workerAt s)"
    using m(3) len by (auto simp: in_set_conv_nth)
  from i m(1) have notClosed: "\<not> chanClosed s" by simp
  have 1: "length (workerAt s') = length chunks" using len by (simp add: s')
  have 2: "wgCounter s' = length (filter busy (workerAt s'))" using i by (simp add: s')
  have 3: "mainInv chunks s'" using none by (simp add: s' mainInv_def)
  have 4: "chanClosed s' = (closerAt s' = Closed)" using notClosed by (simp add: s')
  have 5: "chanClosed s' \<longrightarrow> (\<forall>i < length chunks. workerAt s' ! i = Exited)"
    using notClosed by (simp add: s')
  have 6: "distinct (map index (chanQueue s') @ collected s')" using i by (simp add: s')
  have d: "delivered s' = delivered s" by (simp add: s' delivered_def)
  have 7: "\<forall>i. (i \<in> delivered s') =
      (i < length chunks \<and> (workerAt s' ! i = Sent \<or> workerAt s' ! i = Exited))"
    unfolding d using i by (simp add: s')
  have 8: "\<forall>r \<in> set (chanQueue s'). r = worker comparator chunks (index r)"
    using i by (simp add: s')
  have 9: "\<forall>i \<in> set (collected s'). resultsArr s' ! i = removeDuplicate (chunks ! i) comparator"
    using m(2) by (simp add: s')
  from 1 2 3 4 5 6 7 8 9 show ?thesis unfolding dispatcherInv_def by blast
qed

lemma mainInv_worker_update:
  assumes "mainInv chunks s" and "workerAt s ! i = w" and "w \<noteq> NotStarted"
    and "w' \<noteq> NotStarted" and "length (workerAt s) = length chunks"
    and "mainAt s = Merging \<longrightarrow> chanQueue s' = []"
    and "mainAt s' = mainAt s" and "closerAt s' = closerAt s" and "collected s' = collected s"
    and "resultsArr s' = resultsArr s" and "chanClosed s' = chanClosed s"
    and "workerAt s' = (workerAt s)[i := w']"
  shows "mainInv chunks s'"
proof (cases "mainAt s")
  case (Spawning k)
  with assms(1) have m: "k \<le> length chunks" "closerAt s = Unstarted" "collected s = []"
    "\<forall>j < length chunks. (workerAt s ! j = NotStarted) = (k \<le> j)"
    by (simp_all add: mainInv_def)
  have "\<forall>j < length chunks. (workerAt s' ! j = NotStarted) = (k \<le> j)"
  proof (intro allI impI)
    fix j assume j: "j < length chunks"
    show "(workerAt s' ! j = NotStarted) = (k \<le> j)"
    proof (cases "j = i")
      case True
      with m(4) j assms(2,3) have "\<not> k \<le> j" by auto
      with True j assms(4,5,12) show ?thesis by simp
    next
      case False
      with m(4) j assms(12) show ?thesis by simp
    qed
  qed
  with Spawning m assms(7,8,9) show ?thesis by (simp add: mainInv_def)
next
  case Receiving
  with assms(1) have "closerAt s \<noteq> Unstarted" "NotStarted \<notin> set (workerAt s)"
    "length (resultsArr s) = length chunks" by (simp_all add: mainInv_def)
  with Receiving assms(4,7,8,10,12) show ?thesis
    by (simp add: mainInv_def notStarted_update)
next
  case Merging
  with assms(1) have "closerAt s \<noteq> Unstarted" "NotStarted \<notin> set (workerAt s)"
    "length (resultsArr s) = length chunks" "chanClosed s" by (simp_all add: mainInv_def)
  with Merging assms(4,6,7,8,10,11,12) show ?thesis
    by (simp add: mainInv_def notStarted_update)
qed

lemma inv_Send:
  assumes inv: "dispatcherInv comparator chunks s"
    and step: "dispatcherStep comparator chunks capacity (Send n) s = Some s'"
  shows "dispatcherInv comparator chunks s'"
proof -
  from step have n: "n < length chunks" "workerAt s ! n = Running"
    and s': "s' = s\<lparr>chanQueue := chanQueue s @ [worker comparator chunks n],
                    workerAt := (workerAt s)[n := Sent]\<rparr>"
    by (auto simp: dispatcherStep_def split: if_splits)
  note i = inv [unfolded dispatcherInv_def]
  from i have len: "length (workerAt s) = length chunks" by simp
  from i n have notClosed: "\<not> chanClosed s" by auto
  from i n have fresh: "n \<notin> delivered s" by auto
  from filter_update_length [of n "workerAt s" busy Sent] len n
  have cnt: "length (filter busy ((workerAt s)[n := Sent])) = length (filter busy (workerAt s))"
    by (simp add: busy_def)
  have 1: "length (workerAt s') = length chunks" using len by (simp add: s')
  have 2: "wgCounter s' = length (filter busy (workerAt s'))" using i cnt by (simp add: s')
  have 3: "mainInv chunks s'"
  proof (rule mainInv_worker_update [where s = s and i = n and w = Running and w' = Sent])
    show "mainInv chunks s" using i by simp
    show "mainAt s = Merging \<longrightarrow> chanQueue s' = []"
      using i notClosed by (auto simp: mainInv_def)
  qed (simp_all add: s' n len)
  have 4: "chanClosed s' = (closerAt s' = Closed)" using i by (simp add: s')
  have 5: "chanClosed s' \<longrightarrow> (\<forall>i < length chunks. workerAt s' ! i = Exited)"
    using notClosed by (simp add: s')
  from fresh have f: "n \<notin> set (map index (chanQueue s))" "n \<notin> set (collected s)"
    by (simp_all add: delivered_def)
  from i have "distinct (map index (chanQueue s) @ collected s)" by simp
  with f have 6: "distinct (map index (chanQueue s') @ collected s')"
    by (simp add: s' worker_def)
  have d: "delivered s' = insert n (delivered s)"
    by (simp add: s' delivered_def worker_def)
  have 7: "\<forall>i. (i \<in> delivered s') =
      (i < length chunks \<and> (workerAt s' ! i = Sent \<or> workerAt s' ! i = Exited))"
  proof
    fix j
    from i have old: "(j \<in> delivered s) =
        (j < length chunks \<and> (workerAt s ! j = Sent \<or> workerAt s ! j = Exited))" by blast
    show "(j \<in> delivered s') =
        (j < length chunks \<and> (workerAt s' ! j = Sent \<or> workerAt s' ! j = Exited))"
      unfolding d using old len n by (cases "j = n") (simp_all add: s')
  qed
  have 8: "\<forall>r \<in> set (chanQueue s'). r = worker comparator chunks (index r)"
    using i by (simp add: s' worker_def)
  have 9: "\<forall>i \<in> set (collected s'). resultsArr s' ! i = removeDuplicate (chunks ! i) comparator"
    using i by (simp add: s')
  from 1 2 3 4 5 6 7 8 9 show ?thesis unfolding dispatcherInv_def by blast
qed

lemma inv_WgDone:
  assumes inv: "dispatcherInv comparator chunks s"
    and step: "dispatcherStep comparator chunks capacity (WgDone n) s = Some s'"
  shows "dispatcherInv comparator chunks s'"
proof -
  from step have n: "n < length chunks" "workerAt s ! n = Sent"
    and s': "s' = s\<lparr>wgCounter := wgCounter s - 1, workerAt := (workerAt s)[n := Exited]\<rparr>"
    by (auto simp: dispatcherStep_def split: if_splits)
  note i = inv [unfolded dispatcherInv_def]
  from i have len: "length (workerAt s) = length chunks" by simp
  from i n have notClosed: "\<not> chanClosed s" by auto
  from filter_update_length [of n "workerAt s" busy Exited] len n
  have cnt: "length (filter busy ((workerAt s)[n := Exited])) =
             length (filter busy (workerAt s)) - 1"
    by (simp add: busy_def)
  have 1: "length (workerAt s') = length chunks" using len by (simp add: s')
  have 2: "wgCounter s' = length (filter busy (workerAt s'))" using i cnt by (simp add: s')
  have 3: "mainInv chunks s'"
  proof (rule mainInv_worker_update [where s = s and i = n and w = Sent and w' = Exited])
    show "mainInv chunks s" using i by simp
    show "mainAt s = Merging \<longrightarrow> chanQueue s' = []"
      using i notClosed by (auto simp: mainInv_def)
  qed (simp_all add: s' n len)
  have 4: "chanClosed s' = (closerAt s' = Closed)" using i by (simp add: s')
  have 5: "chanClosed s' \<longrightarrow> (\<forall>i < length chunks. workerAt s' ! i = Exited)"
    using notClosed by (simp add: s')
  have 6: "distinct (map index (chanQueue s') @ collected s')" using i by (simp add: s')
  have d: "delivered s' = delivered s" by (simp add: s' delivered_def)
  have 7: "\<forall>i. (i \<in> delivered s') =
      (i < length chunks \<and> (workerAt s' ! i = Sent \<or> workerAt s' ! i = Exited))"
  proof
    fix j
    from i have old: "(j \<in> delivered s) =
        (j < length chunks \<and> (workerAt s ! j = Sent \<or> workerAt s ! j = Exited))" by blast
    show "(j \<in> delivered s') =
        (j < length chunks \<and> (workerAt s' ! j = Sent \<or> workerAt s' ! j = Exited))"
      unfolding d old using len n by (cases "j = n") (simp_all add: s')
  qed
  have 8: "\<forall>r \<in> set (chanQueue s'). r = worker comparator chunks (index r)"
    using i by (simp add: s')
  have 9: "\<forall>i \<in> set (collected s'). resultsArr s' ! i = removeDuplicate (chunks ! i) comparator"
    using i by (simp add: s')
  from 1 2 3 4 5 6 7 8 9 show ?thesis unfolding dispatcherInv_def by blast
qed

lemma goroutine_idle:
  "w \<noteq> NotStarted \<Longrightarrow> \<not> busy w \<Longrightarrow> w = Exited"
  by (cases w) (simp_all add: busy_def)

lemma inv_CloseCh:
  assumes inv: "dispatcherInv comparator chunks s"
    and step: "dispatcherStep comparator chunks capacity CloseCh s = Some s'"
  shows "dispatcherInv comparator chunks s'"
proof -
  from step have c: "closerAt s = Waiting" "wgCounter s = 0"
    and s': "s' = s\<lparr>chanClosed := True, closerAt := Closed\<rparr>"
    by (auto simp: dispatcherStep_def split: if_splits)
  note i = inv [unfolded dispatcherInv_def]
  from i have len: "length (workerAt s) = length chunks" by simp
  from i c(2) have "filter busy (workerAt s) = []" by simp
  then have idle: "\<forall>w \<in> set (workerAt s). \<not> busy w" by (simp add: filter_empty_conv)
  from i c(1) have started: "NotStarted \<notin> set (workerAt s)" and notSpawning: "\<forall>k. mainAt s \<noteq> Spawning k"
    by (auto simp: mainInv_def split: mainLine.splits)
  have all: "\<forall>j < length chunks. workerAt s ! j = Exited"
  proof (intro allI impI)
    fix j assume "j < length chunks"
    then have "workerAt s ! j \<in> set (workerAt s)" using len by simp
    with idle started show "workerAt s ! j = Exited" by (metis goroutine_idle)
  qed
  have 1: "length (workerAt s') = length chunks" using len by (simp add: s')
  have 2: "wgCounter s' = length (filter busy (workerAt s'))" using i by (simp add: s')
  have 3: "mainInv chunks s'"
    using i notSpawning by (cases "mainAt s") (simp_all add: s' mainInv_def)
  have 4: "chanClosed s' = (closerAt s' = Closed)" by (simp add: s')
  have 5: "chanClosed s' \<longrightarrow> (\<forall>i < length chunks. workerAt s' ! i = Exited)"
    using all by (simp add: s')
  have 6: "distinct (map index (chanQueue s') @ collected s')" using i by (simp add: s')
  have d: "delivered s' = delivered s" by (simp add: s' delivered_def)
  have 7: "\<forall>i. (i \<in> delivered s') =
      (i < length chunks \<and> (workerAt s' ! i = Sent \<or> workerAt s' ! i = Exited))"
    unfolding d using i by (simp add: s')
  have 8: "\<forall>r \<in> set (chanQueue s'). r = worker comparator chunks (index r)"
    using i by (simp add: s')
  have 9: "\<forall>i \<in> set (collected s'). resultsArr s' ! i = removeDuplicate (chunks ! i) comparator"
    using i by (simp add: s')
  from 1 2 3 4 5 6 7 8 9 show ?thesis unfolding dispatcherInv_def by blast
qed

lemma inv_Receive:
  assumes inv: "dispatcherInv comparator chunks s"
    and step: "dispatcherStep comparator chunks capacity Receive s = Some s'"
  shows "dispatcherInv comparator chunks s'"
proof -
  from step obtain r queue where q: "chanQueue s = r # queue" "mainAt s = Receiving"
    and s': "s' = s\<lparr>chanQueue := queue, resultsArr := (resultsArr s)[index r := data r],
                    collected := collected s @ [index r]\<rparr>"
    by (auto simp: dispatcherStep_def split: list.splits if_splits)
  note i = inv [unfolded dispatcherInv_def]
  from i have len: "length (workerAt s) = length chunks" by simp
  from i q(2) have m: "closerAt s \<noteq> Unstarted" "NotStarted \<notin> set (workerAt s)"
    "length (resultsArr s) = length chunks" by (simp_all add: mainInv_def)
  from i q(1) have r: "r = worker comparator chunks (index r)" by simp
  then have data: "data r = removeDuplicate (chunks ! index r) comparator"
    by (metis worker_def resultChunk.select_convs(2))
  have "index r \<in> delivered s" using q(1) by (simp add: delivered_def)
  with i have range: "index r < length chunks" by blast
  have 1: "length (workerAt s') = length chunks" using len by (simp add: s')
  have 2: "wgCounter s' = length (filter busy (workerAt s'))" using i by (simp add: s')
  have 3: "mainInv chunks s'" using q(2) m by (simp add: s' mainInv_def)
  have 4: "chanClosed s' = (closerAt s' = Closed)" using i by (simp add: s')
  have 5: "chanClosed s' \<longrightarrow> (\<forall>i < length chunks. workerAt s' ! i = Exited)"
    using i by (simp add: s')
  from i have "distinct (map index (chanQueue s) @ collected s)" by simp
  then have 6: "distinct (map index (chanQueue s') @ collected s')"
    unfolding q(1) by (auto simp: s')
  have d: "delivered s' = delivered s" unfolding delivered_def q(1) by (auto simp: s')
  have 7: "\<forall>i. (i \<in> delivered s') =
      (i < length chunks \<and> (workerAt s' ! i = Sent \<or> workerAt s' ! i = Exited))"
    unfolding d using i by (simp add: s')
  have 8: "\<forall>r \<in> set (chanQueue s'). r = worker comparator chunks (index r)"
    using i q(1) by (simp add: s')
  have 9: "\<forall>i \<in> set (collected s'). resultsArr s' ! i = removeDuplicate (chunks ! i) comparator"
  proof
    fix j assume j: "j \<in> set (collected s')"
    show "resultsArr s' ! j = removeDuplicate (chunks ! j) comparator"
    proof (cases "j = index r")
      case True
      with range m(3) data show ?thesis by (simp add: s')
    next
      case False
      with j have "j \<in> set (collected s)" by (simp add: s')
      with i have "resultsArr s ! j = removeDuplicate (chunks ! j) comparator" by blast
      with False show ?thesis by (simp add: s')
    qed
  qed
  from 1 2 3 4 5 6 7 8 9 show ?thesis unfolding dispatcherInv_def by blast
qed

lemma inv_ExitLoop:
  assumes inv: "dispatcherInv comparator chunks s"
    and step: "dispatcherStep comparator chunks capacity ExitLoop s = Some s'"
  shows "dispatcherInv comparator chunks s'"
proof -
  from step have q: "mainAt s = Receiving" "chanQueue s = []" "chanClosed s"
    and s': "s' = s\<lparr>mainAt := Merging\<rparr>"
    by (auto simp: dispatcherStep_def split: if_splits)
  note i = inv [unfolded dispatcherInv_def]
  have 3: "mainInv chunks s'" using i q by (simp add: s' mainInv_def)
  have d: "delivered s' = delivered s" by (simp add: s' delivered_def)
  from i 3 show ?thesis unfolding dispatcherInv_def d by (simp add: s')
qed

lemma dispatcherStep_inv:
  assumes "dispatcherInv comparator chunks s"
    and "dispatcherStep comparator chunks capacity e s = Some s'"
  shows "dispatcherInv comparator chunks s'"
  using assms
  by (cases e)
     (blast intro: inv_Spawn inv_StartCloser inv_Send inv_WgDone inv_CloseCh inv_Receive
        inv_ExitLoop)+

lemma dispatcherRun_inv:
  "dispatcherInv comparator chunks s \<Longrightarrow>
   dispatcherRun comparator chunks capacity es s = Some s' \<Longrightarrow>
   dispatcherInv comparator chunks s'"
proof (induction es arbitrary: s)
  case Nil
  then show ?case by simp
next
  case (Cons e es)
  from Cons.prems(2) obtain s1 where
    s1: "dispatcherStep comparator chunks capacity e s = Some s1"
        "dispatcherRun comparator chunks capacity es s1 = Some s'"
    by (auto split: option.splits)
  from Cons.IH [OF dispatcherStep_inv [OF Cons.prems(1) s1(1)] s1(2)] show ?case .
qed

lemma sorted_perm_upt:
  assumes "distinct xs" and "set xs = {0..<n}"
  shows "sort xs = [0..<n]"
proof (rule sorted_distinct_set_unique)
  show "sorted (sort xs)" by simp
  show "distinct (sort xs)" using assms(1) by simp
  show "sorted [0..<n]" by simp
  show "distinct [0..<n]" by simp
  show "set (sort xs) = set [0..<n]" using assms(2) by simp
qed

lemma dispatcherInv_Merging:
  assumes inv: "dispatcherInv comparator chunks s" and m: "mainAt s = Merging"
  shows "validSchedule (collected s) (length chunks)"
    and "resultsArr s = map (\<lambda>chunk. removeDuplicate chunk comparator) chunks"
    and "\<forall>i < length chunks. workerAt s ! i = Exited"
    and "wgCounter s = 0" and "chanClosed s" and "chanQueue s = []"
proof -
  note i = inv [unfolded dispatcherInv_def]
  from i m have q: "chanQueue s = []" "chanClosed s" "length (resultsArr s) = length chunks"
    by (simp_all add: mainInv_def)
  with i show all: "\<forall>i < length chunks. workerAt s ! i = Exited" by blast
  from i have "\<forall>j. (j \<in> delivered s) =
      (j < length chunks \<and> (workerAt s ! j = Sent \<or> workerAt s ! j = Exited))" by blast
  with all q(1) have set: "set (collected s) = {0..<length chunks}"
    by (auto simp: delivered_def)
  from i have "distinct (collected s)" by simp
  with set show "validSchedule (collected s) (length chunks)"
    unfolding validSchedule_def by (intro sorted_perm_upt)
  show "resultsArr s = map (\<lambda>chunk. removeDuplicate chunk comparator) chunks"
  proof (rule nth_equalityI)
    show "length (resultsArr s) = length (map (\<lambda>chunk. removeDuplicate chunk comparator) chunks)"
      using q(3) by simp
  next
    fix j assume "j < length (resultsArr s)"
    then have j: "j < length chunks" using q(3) by simp
    then have "j \<in> set (collected s)" using set by simp
    with i have "resultsArr s ! j = removeDuplicate (chunks ! j) comparator" by blast
    with j show "resultsArr s ! j = map (\<lambda>chunk. removeDuplicate chunk comparator) chunks ! j"
      by simp
  qed
  from i have len: "length (workerAt s) = length chunks"
    and wg: "wgCounter s = length (filter busy (workerAt s))" by simp_all
  have "filter busy (workerAt s) = []"
    unfolding filter_empty_conv using all len by (auto simp: in_set_conv_nth busy_def)
  with wg show "wgCounter s = 0" by simp
  show "chanClosed s" by (rule q(2))
  show "chanQueue s = []" by (rule q(1))
qed

lemma dispatcher_never_stuck:
  assumes inv: "dispatcherInv comparator chunks s" and m: "mainAt s \<noteq> Merging"
    and cap: "chunks \<noteq> [] \<longrightarrow> 0 < capacity"
  shows "\<exists>e s'. dispatcherStep comparator chunks capacity e s = Some s'"
proof (cases "mainAt s")
  case (Spawning k)
  with inv have "k \<le> length chunks" by (simp add: dispatcherInv_def mainInv_def)
  then consider "k < length chunks" | "k = length chunks" by linarith
  then show ?thesis
  proof cases
    case 1
    with Spawning have "\<exists>s'. dispatcherStep comparator chunks capacity Spawn s = Some s'"
      by (simp add: dispatcherStep_def)
    then show ?thesis by blast
  next
    case 2
    with Spawning have "\<exists>s'. dispatcherStep comparator chunks capacity StartCloser s = Some s'"
      by (simp add: dispatcherStep_def)
    then show ?thesis by blast
  qed
next
  case Merging
  with m show ?thesis by simp
next
  case Receiving
  note i = inv [unfolded dispatcherInv_def]
  from i Receiving have started: "closerAt s \<noteq> Unstarted" "NotStarted \<notin> set (workerAt s)"
    by (simp_all add: mainInv_def)
  from i have len: "length (workerAt s) = length chunks" by simp
  show ?thesis
  proof (cases "chanQueue s")
    case (Cons r queue)
    with Receiving have "\<exists>s'. dispatcherStep comparator chunks capacity Receive s = Some s'"
      by (simp add: dispatcherStep_def)
    then show ?thesis by blast
  next
    case Nil
    show ?thesis
    proof (cases "chanClosed s")
      case True
      with Nil Receiving have
        "\<exists>s'. dispatcherStep comparator chunks capacity ExitLoop s = Some s'"
        by (simp add: dispatcherStep_def)
      then show ?thesis by blast
    next
      case False
      with i started(1) have w: "closerAt s = Waiting" by (cases "closerAt s") simp_all
      show ?thesis
      proof (cases "wgCounter s = 0")
        case True
        with w have "\<exists>s'. dispatcherStep comparator chunks capacity CloseCh s = Some s'"
          by (simp add: dispatcherStep_def)
        then show ?thesis by blast
      next
        case False
        with i have "filter busy (workerAt s) \<noteq> []" by auto
        then obtain w' where "w' \<in> set (workerAt s)" "busy w'"
          by (auto simp: filter_empty_conv)
        then obtain j where j: "j < length chunks" "busy (workerAt s ! j)"
          using len by (auto simp: in_set_conv_nth)
        then have ne: "chunks \<noteq> []" by auto
        from j(2) consider "workerAt s ! j = Running" | "workerAt s ! j = Sent"
          by (auto simp: busy_def)
        then show ?thesis
        proof cases
          case 1
          with j(1) Nil cap ne have
            "\<exists>s'. dispatcherStep comparator chunks capacity (Send j) s = Some s'"
            by (simp add: dispatcherStep_def)
          then show ?thesis by blast
        next
          case 2
          with j(1) have
            "\<exists>s'. dispatcherStep comparator chunks capacity (WgDone j) s = Some s'"
            by (simp add: dispatcherStep_def)
          then show ?thesis by blast
        qed
      qed
    qed
  qed
qed

lemma sum_list_map_update:
  "i < length xs \<Longrightarrow>
   sum_list (map f (xs[i := y])) + f (xs ! i) = sum_list (map f xs) + (f y :: nat)"
proof (induction xs arbitrary: i)
  case Nil
  then show ?case by simp
next
  case (Cons x xs)
  show ?case
  proof (cases i)
    case 0
    then show ?thesis by simp
  next
    case (Suc j)
    with Cons.prems have "j < length xs" by simp
    from Cons.IH [OF this] Suc show ?thesis by simp
  qed
qed

lemma dispatcherStep_stepsLeft:
  assumes inv: "dispatcherInv comparator chunks s"
    and step: "dispatcherStep comparator chunks capacity e s = Some s'"
  shows "Suc (stepsLeft s') = stepsLeft s"
proof -
  note i = inv [unfolded dispatcherInv_def]
  from i have len: "length (workerAt s) = length chunks" by simp
  show ?thesis
  proof (cases e)
    case Spawn
    with step obtain k where k: "mainAt s = Spawning k" "k < length chunks"
      and s': "s' = s\<lparr>mainAt := Spawning (k + 1), wgCounter := wgCounter s + 1,
                      workerAt := (workerAt s)[k := Running]\<rparr>"
      by (auto simp: dispatcherStep_def split: mainLine.splits if_splits)
    from i k have "workerAt s ! k = NotStarted" by (simp add: mainInv_def)
    with sum_list_map_update [of k "workerAt s" goroutineSteps Running] len k(2)
    show ?thesis by (simp add: s' stepsLeft_def k(1))
  next
    case StartCloser
    with step have k: "mainAt s = Spawning (length chunks)"
      and s': "s' = s\<lparr>mainAt := Receiving, closerAt := Waiting,
                      resultsArr := replicate (length chunks) []\<rparr>"
      by (auto simp: dispatcherStep_def split: mainLine.splits if_splits)
    from i k have "closerAt s = Unstarted" by (simp add: mainInv_def)
    then show ?thesis by (simp add: s' stepsLeft_def k)
  next
    case (Send n)
    with step have n: "n < length chunks" "workerAt s ! n = Running"
      and s': "s' = s\<lparr>chanQueue := chanQueue s @ [worker comparator chunks n],
                      workerAt := (workerAt s)[n := Sent]\<rparr>"
      by (auto simp: dispatcherStep_def split: if_splits)
    from sum_list_map_update [of n "workerAt s" goroutineSteps Sent] len n
    show ?thesis by (simp add: s' stepsLeft_def)
  next
    case (WgDone n)
    with step have n: "n < length chunks" "workerAt s ! n = Sent"
      and s': "s' = s\<lparr>wgCounter := wgCounter s - 1, workerAt := (workerAt s)[n := Exited]\<rparr>"
      by (auto simp: dispatcherStep_def split: if_splits)
    from sum_list_map_update [of n "workerAt s" goroutineSteps Exited] len n
    show ?thesis by (simp add: s' stepsLeft_def)
  next
    case CloseCh
    with step have c: "closerAt s = Waiting"
      and s': "s' = s\<lparr>chanClosed := True, closerAt := Closed\<rparr>"
      by (auto simp: dispatcherStep_def split: if_splits)
    then show ?thesis by (simp add: stepsLeft_def)
  next
    case Receive
    with step obtain r queue where q: "chanQueue s = r # queue"
      and s': "s' = s\<lparr>chanQueue := queue, resultsArr := (resultsArr s)[index r := data r],
                      collected := collected s @ [index r]\<rparr>"
      by (auto simp: dispatcherStep_def split: list.splits if_splits)
    then show ?thesis by (simp add: stepsLeft_def)
  next
    case ExitLoop
    with step have q: "mainAt s = Receiving" and s': "s' = s\<lparr>mainAt := Merging\<rparr>"
      by (auto simp: dispatcherStep_def split: if_splits)
    then show ?thesis by (simp add: stepsLeft_def)
  qed
qed

lemma stepsLeft_start: "stepsLeft (dispatcherStart chunks) = 4 * length chunks + 3"
  by (simp add: stepsLeft_def dispatcherStart_def sum_list_replicate)

lemma dispatcherRun_length:
  "dispatcherInv comparator chunks s \<Longrightarrow>
   dispatcherRun comparator chunks capacity es s = Some s' \<Longrightarrow>
   length es + stepsLeft s' = stepsLeft s"
proof (induction es arbitrary: s)
  case Nil
  then show ?case by simp
next
  case (Cons e es)
  from Cons.prems(2) obtain s1 where
    s1: "dispatcherStep comparator chunks capacity e s = Some s1"
        "dispatcherRun comparator chunks capacity es s1 = Some s'"
    by (auto split: option.splits)
  from Cons.IH [OF dispatcherStep_inv [OF Cons.prems(1) s1(1)] s1(2)]
    dispatcherStep_stepsLeft [OF Cons.prems(1) s1(1)]
  show ?case by simp
qed

lemma dispatcher_completes:
  assumes "dispatcherInv comparator chunks s" and "chunks \<noteq> [] \<longrightarrow> 0 < capacity"
  shows "\<exists>es s'. dispatcherRun comparator chunks capacity es s = Some s' \<and> mainAt s' = Merging"
  using assms(1)
proof (induction "stepsLeft s" arbitrary: s rule: less_induct)
  case less
  show ?case
  proof (cases "mainAt s = Merging")
    case True
    then have "dispatcherRun comparator chunks capacity [] s = Some s \<and> mainAt s = Merging"
      by simp
    then show ?thesis by blast
  next
    case False
    from dispatcher_never_stuck [OF less.prems False assms(2)] obtain e s1 where
      st: "dispatcherStep comparator chunks capacity e s = Some s1" by blast
    have inv1: "dispatcherInv comparator chunks s1"
      using less.prems st by (rule dispatcherStep_inv)
    have "stepsLeft s1 < stepsLeft s"
      using dispatcherStep_stepsLeft [OF less.prems st] by simp
    from less.hyps [OF this inv1] obtain es s' where
      "dispatcherRun comparator chunks capacity es s1 = Some s'" "mainAt s' = Merging" by blast
    with st have "dispatcherRun comparator chunks capacity (e # es) s = Some s' \<and>
        mainAt s' = Merging" by simp
    then show ?thesis by blast
  qed
qed

lemma stepsLeft_Merging:
  assumes inv: "dispatcherInv comparator chunks s" and m: "mainAt s = Merging"
  shows "stepsLeft s = 0"
proof -
  note f = dispatcherInv_Merging [OF inv m]
  from inv have len: "length (workerAt s) = length chunks"
    and c: "chanClosed s = (closerAt s = Closed)"
    by (simp_all add: dispatcherInv_def)
  have "map goroutineSteps (workerAt s) = replicate (length chunks) 0"
    using f(3) len by (intro nth_equalityI) simp_all
  then have "sum_list (map goroutineSteps (workerAt s)) = 0" by simp
  moreover have "closerAt s = Closed" using c f(5) by simp
  ultimately show ?thesis using m f(6) by (simp add: stepsLeft_def)
qed

lemma validSchedule_length: "validSchedule sched n \<Longrightarrow> length sched = n"
  unfolding validSchedule_def by (metis length_sort length_upt diff_zero)

subsection \<open>A comparator that can panic\<close>




lemma seenInP_None:
  "seenInP comparator item result = None \<Longrightarrow> \<exists>r \<in> set result. comparator item r = None"
  by (induction result) (auto split: option.splits if_splits)

lemma removeDuplicateLoopP_None:
  "removeDuplicateLoopP comparator result items = None \<Longrightarrow>
   \<exists>x \<in> set items. \<exists>y \<in> set result \<union> set items. comparator x y = None"
proof (induction items arbitrary: result)
  case Nil
  then show ?case by simp
next
  case (Cons item items)
  show ?case
  proof (cases "seenInP comparator item result")
    case None
    from seenInP_None [OF this] show ?thesis by auto
  next
    case (Some seen)
    with Cons.prems have "removeDuplicateLoopP comparator
        (if \<not> seen then result @ [item] else result) items = None"
      by (simp split: if_splits)
    from Cons.IH [OF this] show ?thesis by (auto split: if_splits)
  qed
qed




section \<open>The claims\<close>

text \<open>
  C1. On an empty input the call returns the empty result only when the requested
  parallelism is not positive. For a positive one, \<open>numOfThreads\<close> is clamped to the
  length 0 and \<open>(len(slice) + numOfThreads - 1) / numOfThreads\<close> panics with a division by
  zero.
\<close>

theorem empty_input_panics_for_positive_numOfThreads:
  assumes "1 \<le> maxThreads"
  shows "(numOfThreads \<le> 0 \<longrightarrow>
            UniqueByParallel maxThreads sched [] numOfThreads comparator = Some (Inr [])) \<and>
         (0 < numOfThreads \<longrightarrow>
            UniqueByParallel maxThreads sched [] numOfThreads comparator =
              Some (Inl IntegerDivideByZero))"
  using UniqueByParallel_empty [OF assms, of sched numOfThreads comparator] by simp

theorem empty_input_panics_for_positive_numOfThreads_witness:
  "(1 :: int) \<le> 4 \<and> (0 :: int) < 1 \<and>
   UniqueByParallel 4 [] ([] :: int list) 1 (=) = Some (Inl IntegerDivideByZero) \<and>
   clampNumOfThreads 4 (int (length ([] :: int list))) 1 = 0"
proof -
  have a: "(1 :: int) \<le> 4" by simp
  have b: "clampNumOfThreads 4 (int (length ([] :: int list))) 1 = 0" by code_simp
  from empty_input_panics_for_positive_numOfThreads [OF a, of 1 "[]" "(=) :: int comparator"] a b
  show ?thesis by simp
qed

text \<open>
  C2 (amended). For a non-empty input and an effective worker count of 1, and for a
  comparator that returns true on equal arguments (as the documentation of the function
  asks), the output is the comparator-based left-to-right distinct of the whole input:
  the merge changes nothing.
\<close>

theorem single_worker_is_leftToRightDistinct:
  assumes "slice \<noteq> []"
    and "clampNumOfThreads maxThreads (int (length slice)) numOfThreads = 1"
    and "\<forall>x \<in> set slice. comparator x x"
    and "validSchedule sched (numWorkers maxThreads slice numOfThreads)"
  shows "UniqueByParallel maxThreads sched slice numOfThreads comparator =
         Some (Inr (leftToRightDistinct comparator slice))"
proof -
  have c: "chunksOf slice (clampNumOfThreads maxThreads (int (length slice)) numOfThreads) =
           Some (Inr [slice])"
    unfolding assms(2) using assms(1) by (rule chunksOf_one)
  have "distinct (leftToRightDistinct comparator slice)"
    unfolding leftToRightDistinct_def using assms(3) by (intro foldl_keep_distinct) simp_all
  then have "firstOccurrences [] (leftToRightDistinct comparator slice) =
             leftToRightDistinct comparator slice"
    by (intro firstOccurrences_id) simp_all
  with UniqueByParallel_Inr [OF c assms(4), of comparator] show ?thesis by simp
qed

theorem single_worker_is_leftToRightDistinct_witness:
  "[''a'', ''A'', ''b''] \<noteq> [] \<and>
   clampNumOfThreads 4 (int (length [''a'', ''A'', ''b''])) 1 = 1 \<and>
   equalFold ''a'' ''a'' \<and> equalFold ''A'' ''A'' \<and> equalFold ''b'' ''b'' \<and>
   validSchedule [0] (numWorkers 4 [''a'', ''A'', ''b''] 1) \<and>
   UniqueByParallel 4 [0] [''a'', ''A'', ''b''] 1 equalFold = Some (Inr [''a'', ''b''])"
proof -
  have a: "[''a'', ''A'', ''b''] \<noteq> []" by simp
  have b: "clampNumOfThreads 4 (int (length [''a'', ''A'', ''b''])) 1 = 1" by code_simp
  have r: "equalFold ''a'' ''a''" "equalFold ''A'' ''A''" "equalFold ''b'' ''b''"
    by (simp_all add: equalFold_def)
  then have c: "\<forall>x \<in> set [''a'', ''A'', ''b'']. equalFold x x" by simp
  have d: "validSchedule [0] (numWorkers 4 [''a'', ''A'', ''b''] 1)" by code_simp
  have e: "leftToRightDistinct equalFold [''a'', ''A'', ''b''] = [''a'', ''b'']" by code_simp
  from single_worker_is_leftToRightDistinct
      [where slice = "[''a'', ''A'', ''b'']" and comparator = equalFold, OF a b c d] a b r d e
  show ?thesis by simp
qed

text \<open>
  C2 as it is stated fails for a comparator that does not match an element with itself:
  with one worker, \<open>removeDuplicate\<close> keeps both elements of \<open>[1, 1]\<close> and the merge, which
  uses equality, drops the second.
\<close>

theorem single_worker_counterexample:
  "clampNumOfThreads 4 (int (length [1, 1 :: int])) 1 = 1 \<and>
   validSchedule [0] (numWorkers 4 [1, 1 :: int] 1) \<and>
   UniqueByParallel 4 [0] [1, 1] 1 neverEqual = Some (Inr [1]) \<and>
   removeDuplicate [1, 1] neverEqual = [1, 1] \<and>
   leftToRightDistinct neverEqual [1, 1] = [1, 1]"
  by code_simp

text \<open>
  C3. On the empty input the requested parallelism 0 (or any negative one) does not
  behave as 1, and one above the length (0) does not behave as the length: the former
  calls return the empty result, the latter panic.
\<close>

theorem clamping_differs_on_empty_input:
  "UniqueByParallel 8 [] ([] :: int list) 0 (=) = Some (Inr []) \<and>
   UniqueByParallel 8 [] ([] :: int list) (-3) (=) = Some (Inr []) \<and>
   UniqueByParallel 8 [] ([] :: int list) 1 (=) = Some (Inl IntegerDivideByZero) \<and>
   UniqueByParallel 8 [] ([] :: int list) 5 (=) = Some (Inl IntegerDivideByZero) \<and>
   int (length ([] :: int list)) = 0"
  by code_simp

text \<open>
  C4. The merge goes through the concatenation of the chunk results, taken in the order
  of the chunk indices, and keeps the element at a position iff it is equal to no element
  at an earlier position; the comparator has no part in it. The output of the call is this
  merge of the workers' results, whatever the order in which the workers finished. For the
  input \<open>["a", "b", "A"]\<close>, two workers and the case-insensitive comparator the output is
  \<open>["a", "b", "A"]\<close>.
\<close>

theorem merge_by_equality_in_chunk_order:
  "merge results =
     map ((!) (concat results))
       (filter (\<lambda>i. concat results ! i \<notin> set (take i (concat results)))
          [0..<length (concat results)]) \<and>
   (chunksOf slice (clampNumOfThreads maxThreads (int (length slice)) numOfThreads) =
       Some (Inr chunks) \<and>
    validSchedule sched (length chunks) \<longrightarrow>
      UniqueByParallel maxThreads sched slice numOfThreads comparator =
        Some (Inr (merge (map (\<lambda>chunk. removeDuplicate chunk comparator) chunks)))) \<and>
   (2 \<le> cpus \<and> validSchedule sched' 2 \<longrightarrow>
      UniqueByParallel cpus sched' [''a'', ''b'', ''A''] 2 equalFold =
        Some (Inr [''a'', ''b'', ''A'']))"
proof (intro conjI impI)
  show "merge results =
     map ((!) (concat results))
       (filter (\<lambda>i. concat results ! i \<notin> set (take i (concat results)))
          [0..<length (concat results)])"
    unfolding merge_eq by (rule firstOccurrences_nth)
next
  assume a: "chunksOf slice (clampNumOfThreads maxThreads (int (length slice)) numOfThreads) =
       Some (Inr chunks) \<and> validSchedule sched (length chunks)"
  then have "dispatch sched comparator chunks =
      map (\<lambda>chunk. removeDuplicate chunk comparator) chunks"
    by (simp add: dispatch_valid)
  with a show "UniqueByParallel maxThreads sched slice numOfThreads comparator =
        Some (Inr (merge (map (\<lambda>chunk. removeDuplicate chunk comparator) chunks)))"
    by (simp add: UniqueByParallel_def)
next
  assume a: "2 \<le> cpus \<and> validSchedule sched' 2"
  then have w: "clampNumOfThreads cpus (int (length [''a'', ''b'', ''A''])) 2 = 2"
    by (simp add: clampNumOfThreads_def)
  have c: "chunksOf [''a'', ''b'', ''A''] 2 = Some (Inr [[''a'', ''b''], [''A'']])"
    by code_simp
  have n: "numWorkers cpus [''a'', ''b'', ''A''] 2 = 2"
    unfolding numWorkers_def w c by simp
  have m: "firstOccurrences []
      (concat (map (leftToRightDistinct equalFold) [[''a'', ''b''], [''A'']])) =
      [''a'', ''b'', ''A'']"
    by code_simp
  from a have v: "validSchedule sched' (numWorkers cpus [''a'', ''b'', ''A''] 2)"
    unfolding n by simp
  have c': "chunksOf [''a'', ''b'', ''A'']
      (clampNumOfThreads cpus (int (length [''a'', ''b'', ''A''])) 2) =
      Some (Inr [[''a'', ''b''], [''A'']])"
    unfolding w by (rule c)
  show "UniqueByParallel cpus sched' [''a'', ''b'', ''A''] 2 equalFold =
        Some (Inr [''a'', ''b'', ''A''])"
    unfolding UniqueByParallel_Inr [OF c' v] m ..
qed

theorem merge_by_equality_in_chunk_order_witness:
  "(2 :: int) \<le> 4 \<and> validSchedule [1, 0] 2 \<and>
   chunksOf [''a'', ''b'', ''A''] (clampNumOfThreads 4 (int (length [''a'', ''b'', ''A''])) 2) =
     Some (Inr [[''a'', ''b''], [''A'']]) \<and>
   validSchedule [1, 0] (length [[''a'', ''b''], [''A'']]) \<and>
   UniqueByParallel 4 [1, 0] [''a'', ''b'', ''A''] 2 equalFold = Some (Inr [''a'', ''b'', ''A'']) \<and>
   merge [[''a'', ''b''], [''A'']] = [''a'', ''b'', ''A''] \<and>
   equalFold ''a'' ''A''"
proof -
  have a: "(2 :: int) \<le> 4" by simp
  have b: "validSchedule [1, 0] 2" by code_simp
  have c: "chunksOf [''a'', ''b'', ''A'']
      (clampNumOfThreads 4 (int (length [''a'', ''b'', ''A''])) 2) =
      Some (Inr [[''a'', ''b''], [''A'']])" by code_simp
  have d: "validSchedule [1, 0] (length [[''a'', ''b''], [''A'']])" by code_simp
  have e: "merge [[''a'', ''b''], [''A'']] = [''a'', ''b'', ''A'']" by code_simp
  have f: "equalFold ''a'' ''A''" by code_simp
  from merge_by_equality_in_chunk_order
    [where cpus = 4 and sched' = "[1, 0]"] a b
  have "UniqueByParallel 4 [1, 0] [''a'', ''b'', ''A''] 2 equalFold =
      Some (Inr [''a'', ''b'', ''A''])" by blast
  with a b c d e f show ?thesis by blast
qed

text \<open>
  C5. Whatever the input, the requested parallelism, the comparator and the order in
  which the workers finish, an output that \<open>UniqueByParallel\<close> returns is a subsequence of
  the input (the surviving elements keep their relative order) and holds no two equal
  elements. The call does return an output whenever the input is not empty or the
  requested parallelism is not positive (with at least one CPU).
\<close>

theorem output_subsequence_distinct:
  assumes "validSchedule sched (numWorkers maxThreads slice numOfThreads)"
  shows "(\<forall>out. UniqueByParallel maxThreads sched slice numOfThreads comparator = Some (Inr out)
            \<longrightarrow> subseq out slice \<and> distinct out) \<and>
         (1 \<le> maxThreads \<and> (slice \<noteq> [] \<or> numOfThreads \<le> 0)
            \<longrightarrow> (\<exists>out. UniqueByParallel maxThreads sched slice numOfThreads comparator = Some (Inr out)))"
proof (intro conjI allI impI)
  fix out
  assume r: "UniqueByParallel maxThreads sched slice numOfThreads comparator = Some (Inr out)"
  then obtain chunks where c:
    "chunksOf slice (clampNumOfThreads maxThreads (int (length slice)) numOfThreads) = Some (Inr chunks)"
    by (rule UniqueByParallel_Inr_D)
  from UniqueByParallel_Inr [OF c assms, of comparator] r
  have out: "out = firstOccurrences [] (concat (map (leftToRightDistinct comparator) chunks))"
    by simp
  have cc: "concat chunks = slice" using c by (rule chunksOf_Inr(2))
  show "subseq out slice" unfolding out using cc by (rule out_subseq)
  show "distinct out" unfolding out by (rule firstOccurrences_distinct)
next
  assume a: "1 \<le> maxThreads \<and> (slice \<noteq> [] \<or> numOfThreads \<le> 0)"
  let ?W = "clampNumOfThreads maxThreads (int (length slice)) numOfThreads"
  have "\<exists>chunks. chunksOf slice ?W = Some (Inr chunks)"
  proof (cases "slice = []")
    case True
    with a have "?W = 1" by (simp add: clamp_nonpos)
    with True show ?thesis by (simp add: chunksOf_empty)
  next
    case False
    then have "1 \<le> int (length slice)" by (cases slice) simp_all
    with a have "1 \<le> ?W" using clamp_range by blast
    from chunksOf_pos_props(1) [OF this False] show ?thesis by blast
  qed
  then obtain chunks where "chunksOf slice ?W = Some (Inr chunks)" ..
  from UniqueByParallel_Inr [OF this assms]
  show "\<exists>out. UniqueByParallel maxThreads sched slice numOfThreads comparator = Some (Inr out)"
    by blast
qed

theorem output_subsequence_distinct_witness:
  "validSchedule [1, 0] (numWorkers 4 [1, 2, 2, 3, 1, 4 :: int] 2) \<and>
   UniqueByParallel 4 [1, 0] [1, 2, 2, 3, 1, 4 :: int] 2 (=) = Some (Inr [1, 2, 3, 4]) \<and>
   subseq [1, 2, 3, 4] [1, 2, 2, 3, 1, 4 :: int] \<and> distinct [1, 2, 3, 4 :: int]"
proof -
  have v: "validSchedule [1, 0] (numWorkers 4 [1, 2, 2, 3, 1, 4 :: int] 2)"
    by code_simp
  have r: "UniqueByParallel 4 [1, 0] [1, 2, 2, 3, 1, 4 :: int] 2 (=) = Some (Inr [1, 2, 3, 4])"
    by code_simp
  from output_subsequence_distinct [OF v, of "(=)"] r v show ?thesis by blast
qed

text \<open>
  C6. The chunk deduplicator \<open>removeDuplicate\<close> goes through the chunk in order with a
  local result list: an element that the comparator matches with some element already in
  the list is discarded, any other element is appended, and the chunk result is that
  list. It is the left-to-right distinct of the specification.
\<close>

theorem removeDuplicate_keeps_unmatched:
  "removeDuplicate chunk comparator = leftToRightDistinct comparator chunk \<and>
   removeDuplicate [] comparator = [] \<and>
   removeDuplicate (chunk @ [item]) comparator =
     (if (\<exists>r \<in> set (removeDuplicate chunk comparator). comparator item r)
      then removeDuplicate chunk comparator
      else removeDuplicate chunk comparator @ [item])"
  by (simp add: removeDuplicate_eq leftToRightDistinct_snoc) (simp add: leftToRightDistinct_def)

theorem removeDuplicate_keeps_unmatched_witness:
  "removeDuplicate [1, 2, 1, 3 :: int] (\<lambda>item other. item = other) = [1, 2, 3] \<and>
   (\<exists>r \<in> set (removeDuplicate [1, 2 :: int] (=)). 1 = r)"
  using removeDuplicate_keeps_unmatched [of "[1, 2, 1 :: int]" "(=)" 3]
    removeDuplicate_keeps_unmatched [of "[1, 2 :: int]" "(=)" 1]
    removeDuplicate_keeps_unmatched [of "[1 :: int]" "(=)" 2]
    removeDuplicate_keeps_unmatched [of "[] :: int list" "(=)" 1]
  by simp

text \<open>
  C7. For a non-empty input and an effective worker count \<open>W \<ge> 1\<close>, the chunk size is
  the ceiling of \<open>len(input) / W\<close>, chunk \<open>i\<close> is
  \<open>input[i * chunkSize : min((i + 1) * chunkSize, len(input))]\<close>, no chunk is empty, and the
  chunks in order concatenate to the input. (The chunks are a function of the input and
  \<open>W\<close>.)
\<close>

theorem chunks_partition_input:
  assumes "slice \<noteq> []" and "1 \<le> W"
  shows "\<exists>chunkSize chunks.
           chunkSizeOf (int (length slice)) W = Inr chunkSize \<and>
           (chunkSize - 1) * W < int (length slice) \<and> int (length slice) \<le> chunkSize * W \<and>
           chunksOf slice W = Some (Inr chunks) \<and>
           (\<forall>i < length chunks.
              subslice slice (int i * chunkSize)
                (min ((int i + 1) * chunkSize) (int (length slice))) = Inr (chunks ! i)) \<and>
           (\<forall>chunk \<in> set chunks. chunk \<noteq> []) \<and>
           concat chunks = slice"
proof -
  define w where "w = nat W"
  define cs where "cs = (length slice + w - 1) div w"
  define chunks where "chunks = map (chunkAt slice cs) [0..<(length slice + cs - 1) div cs]"
  note p = chunksOf_pos_props [OF assms(2,1), folded w_def, folded cs_def, folded chunks_def]
  have w: "0 < w" and W: "W = int w" using assms(2) by (simp_all add: w_def)
  have n: "0 < length slice" using assms(1) by simp
  have size: "chunkSizeOf (int (length slice)) W = Inr (int cs)"
    unfolding cs_def w_def by (rule chunkSizeOf_pos [OF assms(2)])
  have "(cs - 1) * w < length slice"
    unfolding cs_def by (rule ceil_bounds(2) [OF w n])
  then have "int ((cs - 1) * w) < int (length slice)" by (simp only: of_nat_less_iff)
  moreover have "int ((cs - 1) * w) = (int cs - 1) * int w"
    using p(2) by (simp add: of_nat_diff)
  ultimately have lo: "(int cs - 1) * W < int (length slice)" unfolding W by (simp only:)
  have "length slice \<le> cs * w"
    unfolding cs_def by (rule ceil_bounds(1) [OF w])
  then have "int (length slice) \<le> int (cs * w)" by (simp only: of_nat_le_iff)
  then have hi: "int (length slice) \<le> int cs * W" unfolding W by simp
  have nth: "\<forall>i < length chunks.
      subslice slice (int i * int cs) (min ((int i + 1) * int cs) (int (length slice))) =
        Inr (chunks ! i)"
  proof (intro allI impI)
    fix i assume i: "i < length chunks"
    then have "i < (length slice + cs - 1) div cs" using p(3) by simp
    then have "i * cs < length slice" using lt_ceil_iff [OF p(2)] by blast
    moreover have "chunks ! i = chunkAt slice cs i" using i by (simp add: chunks_def)
    ultimately show "subslice slice (int i * int cs)
        (min ((int i + 1) * int cs) (int (length slice))) = Inr (chunks ! i)"
      using subslice_chunkAt [OF p(2)] by simp
  qed
  from size lo hi p(1) nth p(5) p(4) show ?thesis by blast
qed

theorem chunks_partition_input_witness:
  "[1, 2, 3, 4, 5 :: int] \<noteq> [] \<and> (1 :: int) \<le> 2 \<and>
   chunkSizeOf (int (length [1, 2, 3, 4, 5 :: int])) 2 = Inr 3 \<and>
   chunksOf [1, 2, 3, 4, 5 :: int] 2 = Some (Inr [[1, 2, 3], [4, 5]]) \<and>
   subslice [1, 2, 3, 4, 5 :: int] (int 1 * 3) (min ((int 1 + 1) * 3) (int (length [1, 2, 3, 4, 5 :: int])))
     = Inr [4, 5]"
proof -
  have a: "[1, 2, 3, 4, 5 :: int] \<noteq> []" by simp
  have b: "(1 :: int) \<le> 2" by simp
  have c: "chunkSizeOf (int (length [1, 2, 3, 4, 5 :: int])) 2 = Inr 3" by code_simp
  have d: "chunksOf [1, 2, 3, 4, 5 :: int] 2 = Some (Inr [[1, 2, 3], [4, 5]])" by code_simp
  from chunks_partition_input [OF a b] obtain chunkSize chunks where
    p: "chunkSizeOf (int (length [1, 2, 3, 4, 5 :: int])) 2 = Inr chunkSize"
       "chunksOf [1, 2, 3, 4, 5 :: int] 2 = Some (Inr chunks)"
       "\<forall>i < length chunks.
          subslice [1, 2, 3, 4, 5 :: int] (int i * chunkSize)
            (min ((int i + 1) * chunkSize) (int (length [1, 2, 3, 4, 5 :: int]))) = Inr (chunks ! i)"
    by blast
  from p(1) c have cs: "chunkSize = 3" by simp
  from p(2) d have ch: "chunks = [[1, 2, 3], [4, 5]]" by simp
  have "1 < length chunks" unfolding ch by simp
  with p(3) have "subslice [1, 2, 3, 4, 5 :: int] (int 1 * chunkSize)
            (min ((int 1 + 1) * chunkSize) (int (length [1, 2, 3, 4, 5 :: int]))) = Inr (chunks ! 1)"
    by blast
  then have e: "subslice [1, 2, 3, 4, 5 :: int] (int 1 * 3)
      (min ((int 1 + 1) * 3) (int (length [1, 2, 3, 4, 5 :: int]))) = Inr [4, 5]"
    unfolding cs ch by simp
  from a b c d e show ?thesis by blast
qed

text \<open>
  C8 (amended). For a non-empty input and an effective worker count \<open>W \<ge> 1\<close>, the
  number of chunks is the ceiling of \<open>len(input) / chunkSize\<close>: at least one and at most
  \<open>W\<close>. In every execution of the dispatcher, whatever the scheduler chooses, when the
  receiving loop has ended and the merge begins, exactly one message for each chunk has
  been received, every worker has finished, and \<open>results\<close> holds the result of chunk \<open>i\<close>
  at index \<open>i\<close>. Such an execution exists and has \<open>4 * len(chunks) + 3\<close> steps.
\<close>

theorem chunk_count_and_collection:
  assumes "slice \<noteq> []" and "1 \<le> W"
  shows "\<exists>chunkSize chunks.
           chunkSizeOf (int (length slice)) W = Inr chunkSize \<and>
           chunksOf slice W = Some (Inr chunks) \<and>
           1 \<le> length chunks \<and> int (length chunks) \<le> W \<and>
           (int (length chunks) - 1) * chunkSize < int (length slice) \<and>
           int (length slice) \<le> int (length chunks) * chunkSize \<and>
           (\<forall>comparator events s.
              dispatcherRun comparator chunks (nat W) events (dispatcherStart chunks) = Some s \<and>
              mainAt s = Merging \<longrightarrow>
                length events = 4 * length chunks + 3 \<and>
                length (collected s) = length chunks \<and>
                validSchedule (collected s) (length chunks) \<and>
                (\<forall>i < length chunks. workerAt s ! i = Exited) \<and>
                wgCounter s = 0 \<and> chanClosed s \<and> chanQueue s = [] \<and>
                resultsArr s = map (\<lambda>chunk. removeDuplicate chunk comparator) chunks \<and>
                resultsArr s = dispatch (collected s) comparator chunks) \<and>
           (\<forall>comparator. \<exists>events s.
              dispatcherRun comparator chunks (nat W) events (dispatcherStart chunks) = Some s \<and>
              mainAt s = Merging) \<and>
           (\<forall>sched comparator. validSchedule sched (length chunks) \<longrightarrow>
              length (received sched comparator chunks) = length chunks \<and>
              dispatch sched comparator chunks =
                map (\<lambda>chunk. removeDuplicate chunk comparator) chunks)"
proof -
  define w where "w = nat W"
  define cs where "cs = (length slice + w - 1) div w"
  define chunks where "chunks = map (chunkAt slice cs) [0..<(length slice + cs - 1) div cs]"
  note p = chunksOf_pos_props [OF assms(2,1), folded w_def, folded cs_def, folded chunks_def]
  have n: "0 < length slice" using assms(1) by simp
  have w: "0 < w" using assms(2) by (simp add: w_def)
  have size: "chunkSizeOf (int (length slice)) W = Inr (int cs)"
    unfolding cs_def w_def by (rule chunkSizeOf_pos [OF assms(2)])
  have "(length chunks - 1) * cs < length slice"
    unfolding p(3) by (rule ceil_bounds(2) [OF p(2) n])
  then have "int ((length chunks - 1) * cs) < int (length slice)" by (simp only: of_nat_less_iff)
  moreover have "int ((length chunks - 1) * cs) = (int (length chunks) - 1) * int cs"
    using p(6) by simp
  ultimately have lo: "(int (length chunks) - 1) * int cs < int (length slice)" by (simp only:)
  have "length slice \<le> length chunks * cs"
    unfolding p(3) by (rule ceil_bounds(1) [OF p(2)])
  then have "int (length slice) \<le> int (length chunks * cs)" by (simp only: of_nat_le_iff)
  then have hi: "int (length slice) \<le> int (length chunks) * int cs" by simp
  have runs: "\<forall>comparator events s.
      dispatcherRun comparator chunks w events (dispatcherStart chunks) = Some s \<and>
      mainAt s = Merging \<longrightarrow>
        length events = 4 * length chunks + 3 \<and>
        length (collected s) = length chunks \<and>
        validSchedule (collected s) (length chunks) \<and>
        (\<forall>i < length chunks. workerAt s ! i = Exited) \<and>
        wgCounter s = 0 \<and> chanClosed s \<and> chanQueue s = [] \<and>
        resultsArr s = map (\<lambda>chunk. removeDuplicate chunk comparator) chunks \<and>
        resultsArr s = dispatch (collected s) comparator chunks"
  proof (intro allI impI)
    fix comparator :: "'a comparator" and events and s :: "'a dispatcher"
    assume a: "dispatcherRun comparator chunks w events (dispatcherStart chunks) = Some s \<and>
      mainAt s = Merging"
    then have run: "dispatcherRun comparator chunks w events (dispatcherStart chunks) = Some s"
      and m: "mainAt s = Merging" by simp_all
    have inv: "dispatcherInv comparator chunks s"
      using dispatcherInv_start run by (rule dispatcherRun_inv)
    note f = dispatcherInv_Merging [OF inv m]
    have "stepsLeft s = 0" using inv m by (rule stepsLeft_Merging)
    with dispatcherRun_length [OF dispatcherInv_start run]
    have steps: "length events = 4 * length chunks + 3" by (simp add: stepsLeft_start)
    have d: "resultsArr s = dispatch (collected s) comparator chunks"
      unfolding f(2) using f(1) by (rule dispatch_valid [symmetric])
    from steps validSchedule_length [OF f(1)] f d
    show "length events = 4 * length chunks + 3 \<and>
        length (collected s) = length chunks \<and>
        validSchedule (collected s) (length chunks) \<and>
        (\<forall>i < length chunks. workerAt s ! i = Exited) \<and>
        wgCounter s = 0 \<and> chanClosed s \<and> chanQueue s = [] \<and>
        resultsArr s = map (\<lambda>chunk. removeDuplicate chunk comparator) chunks \<and>
        resultsArr s = dispatch (collected s) comparator chunks"
      by blast
  qed
  have ex: "\<forall>comparator. \<exists>events s.
      dispatcherRun comparator chunks w events (dispatcherStart chunks) = Some s \<and>
      mainAt s = Merging"
    using dispatcher_completes [OF dispatcherInv_start] w by blast
  have d: "\<forall>sched comparator. validSchedule sched (length chunks) \<longrightarrow>
              length (received sched comparator chunks) = length chunks \<and>
              dispatch sched comparator chunks =
                map (\<lambda>chunk. removeDuplicate chunk comparator) chunks"
    by (simp add: received_length dispatch_valid)
  from size p(1) p(6) p(7) lo hi runs ex d show ?thesis unfolding w_def by blast
qed

theorem chunk_count_and_collection_witness:
  "[1, 2, 3, 4, 5 :: int] \<noteq> [] \<and> (1 :: int) \<le> 4 \<and>
   chunksOf [1, 2, 3, 4, 5 :: int] 4 = Some (Inr [[1, 2], [3, 4], [5]]) \<and>
   dispatcherRun (=) [[1, 2], [3, 4], [5 :: int]] (nat 4)
     [Spawn, Spawn, Send 1, Spawn, StartCloser, Send 2, Receive, WgDone 2, Send 0, WgDone 0,
      Receive, WgDone 1, CloseCh, Receive, ExitLoop]
     (dispatcherStart [[1, 2], [3, 4], [5]]) =
     Some \<lparr>mainAt = Merging, workerAt = [Exited, Exited, Exited], wgCounter = 0,
           chanQueue = [], chanClosed = True, closerAt = Closed,
           resultsArr = [[1, 2], [3, 4], [5]], collected = [1, 2, 0]\<rparr> \<and>
   validSchedule [1, 2, 0] (length [[1, 2], [3, 4], [5 :: int]]) \<and>
   dispatch [1, 2, 0] (=) [[1, 2], [3, 4], [5 :: int]] = [[1, 2], [3, 4], [5]]"
proof -
  let ?final = "\<lparr>mainAt = Merging, workerAt = [Exited, Exited, Exited], wgCounter = 0,
           chanQueue = [], chanClosed = True, closerAt = Closed,
           resultsArr = [[1, 2], [3, 4], [5 :: int]], collected = [1, 2, 0]\<rparr>"
  have a: "[1, 2, 3, 4, 5 :: int] \<noteq> []" by simp
  have b: "(1 :: int) \<le> 4" by simp
  have c: "chunksOf [1, 2, 3, 4, 5 :: int] 4 = Some (Inr [[1, 2], [3, 4], [5]])" by code_simp
  have r: "dispatcherRun (=) [[1, 2], [3, 4], [5 :: int]] (nat 4)
     [Spawn, Spawn, Send 1, Spawn, StartCloser, Send 2, Receive, WgDone 2, Send 0, WgDone 0,
      Receive, WgDone 1, CloseCh, Receive, ExitLoop]
     (dispatcherStart [[1, 2], [3, 4], [5]]) = Some ?final" by code_simp
  from chunk_count_and_collection [OF a b] obtain chunks where
    p: "chunksOf [1, 2, 3, 4, 5 :: int] 4 = Some (Inr chunks)"
       "\<forall>comparator events s.
          dispatcherRun comparator chunks (nat 4) events (dispatcherStart chunks) = Some s \<and>
          mainAt s = Merging \<longrightarrow>
            length events = 4 * length chunks + 3 \<and>
            length (collected s) = length chunks \<and>
            validSchedule (collected s) (length chunks) \<and>
            (\<forall>i < length chunks. workerAt s ! i = Exited) \<and>
            wgCounter s = 0 \<and> chanClosed s \<and> chanQueue s = [] \<and>
            resultsArr s = map (\<lambda>chunk. removeDuplicate chunk comparator) chunks \<and>
            resultsArr s = dispatch (collected s) comparator chunks"
    by blast
  from p(1) c have ch: "chunks = [[1, 2], [3, 4], [5]]" by simp
  have m: "mainAt ?final = Merging" by simp
  from p(2) [unfolded ch] r m
  have "validSchedule (collected ?final) (length [[1, 2], [3, 4], [5 :: int]]) \<and>
        resultsArr ?final = dispatch (collected ?final) (=) [[1, 2], [3, 4], [5 :: int]]"
    by blast
  then have "validSchedule [1, 2, 0] (length [[1, 2], [3, 4], [5 :: int]]) \<and>
        dispatch [1, 2, 0] (=) [[1, 2], [3, 4], [5 :: int]] = [[1, 2], [3, 4], [5]]"
    by simp
  with a b c r show ?thesis by blast
qed

text \<open>
  C8 as it is stated fails: five elements and an effective worker count of 4 give the
  chunk size 2 and so three chunks, three workers and three messages.
\<close>

theorem chunk_count_counterexample:
  "[1, 2, 3, 4, 5 :: int] \<noteq> [] \<and>
   clampNumOfThreads 8 (int (length [1, 2, 3, 4, 5 :: int])) 4 = 4 \<and>
   chunksOf [1, 2, 3, 4, 5 :: int] 4 = Some (Inr [[1, 2], [3, 4], [5]]) \<and>
   numWorkers 8 [1, 2, 3, 4, 5 :: int] 4 = 3 \<and>
   length (received [0, 1, 2] (=) [[1, 2], [3, 4], [5 :: int]]) = 3"
  by code_simp




text \<open>
  C10. The call never writes to an array that existed before it: afterwards every such
  array, and so the input slice with its elements in their order, is as before, and the
  result has no array (when it is empty) or an array allocated during the call. What the
  result holds is the output of the function, and a call that panics does so as the
  function does.
\<close>

theorem input_not_mutated:
  assumes wf: "sliceIn h slice"
    and sched: "validSchedule sched (numWorkers maxThreads (viewOf h slice) numOfThreads)"
  shows "(\<exists>p. UniqueByParallelS maxThreads sched rt h slice numOfThreads comparator =
               Some (Inl p) \<and>
             UniqueByParallel maxThreads sched (viewOf h slice) numOfThreads comparator =
               Some (Inl p)) \<or>
         (\<exists>h' result.
             UniqueByParallelS maxThreads sched rt h slice numOfThreads comparator =
               Some (Inr (h', result)) \<and>
             take (length h) h' = h \<and>
             viewOf h' slice = viewOf h slice \<and>
             freshFrom (length h) result \<and>
             UniqueByParallel maxThreads sched (viewOf h slice) numOfThreads comparator =
               Some (Inr (viewOf h' result)))"
proof -
  have len: "length (viewOf h slice) = slen slice"
    using wf by (intro viewOf_length sliceIn_readable)
  define W where "W = clampNumOfThreads maxThreads (int (slen slice)) numOfThreads"
  have W': "clampNumOfThreads maxThreads (int (length (viewOf h slice))) numOfThreads = W"
    unfolding len W_def ..
  show ?thesis
  proof (cases "1 \<le> W")
    case False
    from chunksOfS_panics [OF False len] obtain p where
      "chunksOfS slice W = Some (Inl p)" "chunksOf (viewOf h slice) W = Some (Inl p)" by blast
    then have "UniqueByParallelS maxThreads sched rt h slice numOfThreads comparator =
                 Some (Inl p)"
      and "UniqueByParallel maxThreads sched (viewOf h slice) numOfThreads comparator =
                 Some (Inl p)"
      unfolding UniqueByParallelS_def UniqueByParallel_def W' W_def [symmetric] by simp_all
    then show ?thesis by blast
  next
    case True
    from chunksOfS_rel [OF wf True] obtain hs where hs:
      "chunksOfS slice W = Some (Inr hs)"
      "chunksOf (viewOf h slice) W = Some (Inr (map (viewOf h) hs))"
      "\<forall>c \<in> set hs. placed (length h) h c" by blast
    let ?chunks = "map (viewOf h) hs"
    have nw: "numWorkers maxThreads (viewOf h slice) numOfThreads = length hs"
      unfolding numWorkers_def W' hs(2) by simp
    have valid: "validSchedule sched (length hs)" using sched unfolding nw .
    then have in_range: "\<forall>i \<in> set sched. i < length hs" by (simp add: validSchedule_set)
    obtain h1 msgs where w: "workersS rt comparator hs h sched = (h1, msgs)"
      by (cases "workersS rt comparator hs h sched")
    from workersS_props [OF hs(3) in_range w] have p:
      "take (length h) h1 = h" "length h \<le> length h1" "map indexS msgs = sched"
      "\<forall>m \<in> set msgs. placed (length h1) h1 (dataS m) \<and> freshFrom (length h) (dataS m) \<and>
          viewOf h1 (dataS m) = removeDuplicate (viewOf h (hs ! indexS m)) comparator"
      by blast+
    define results where "results = collectS (replicate (length hs) nilSlice) msgs"
    have rl: "length results = length hs" by (simp add: results_def collectS_length)
    have each: "placed (length h1) h1 (results ! i) \<and>
        viewOf h1 (results ! i) = removeDuplicate (viewOf h (hs ! i)) comparator"
      if "i < length hs" for i
    proof -
      from collectS_valid [OF valid p(3) that] obtain m where
        "m \<in> set msgs" "indexS m = i" "results ! i = dataS m"
        unfolding results_def by blast
      with p(4) show ?thesis by auto
    qed
    have placed_all: "\<forall>c \<in> set results. placed (length h1) h1 c"
      using each rl by (auto simp: in_set_conv_nth)
    have views: "map (viewOf h1) results =
        map (\<lambda>chunk. removeDuplicate chunk comparator) ?chunks"
      by (rule nth_equalityI) (simp_all add: rl each)
    obtain h' result where m: "mergeS rt h1 results = (h', result)"
      by (cases "mergeS rt h1 results")
    note q = mergeS_props [OF placed_all m]
    have run: "UniqueByParallelS maxThreads sched rt h slice numOfThreads comparator =
               Some (Inr (h', result))"
      unfolding UniqueByParallelS_def W_def [symmetric] hs(1)
      using w m by (simp add: results_def)
    have t1: "take (length h) h1 = take (length h) h" using p(1) by simp
    have t2: "take (length h1) h' = take (length h1) h1" using q(1) by simp
    have frame: "take (length h) h' = h"
      using same_below_trans [OF t1 t2 p(2)] by simp
    have fresh: "freshFrom (length h) result"
      using ownedFrom_fresh [OF q(2)] p(2) by (auto simp: freshFrom_def)
    have "dispatch sched comparator ?chunks =
          map (\<lambda>chunk. removeDuplicate chunk comparator) ?chunks"
      using valid by (intro dispatch_valid) simp
    then have pure: "UniqueByParallel maxThreads sched (viewOf h slice) numOfThreads comparator =
        Some (Inr (viewOf h' result))"
      unfolding UniqueByParallel_def W' hs(2) q(3) views by simp
    have "length (take (length h) h') = length h" unfolding frame ..
    then have le: "length h \<le> length h'" by simp
    have "placed (length h) h slice"
      using wf by (simp add: placed_def sliceIn_readable) (simp add: sliceIn_def)
    with frame le have same: "viewOf h' slice = viewOf h slice"
      by (intro placed_same_below(2) [where n = "length h"]) simp_all
    from run frame same fresh pure show ?thesis by blast
  qed
qed

theorem input_not_mutated_witness:
  "sliceIn [[9, 1, 2, 2, 3, 1, 4, 7, 7 :: int]] \<lparr>base = 0, offs = 1, slen = 6, scap = 8\<rparr> \<and>
   viewOf [[9, 1, 2, 2, 3, 1, 4, 7, 7 :: int]] \<lparr>base = 0, offs = 1, slen = 6, scap = 8\<rparr> =
     [1, 2, 2, 3, 1, 4] \<and>
   validSchedule [1, 0] (numWorkers 4 [1, 2, 2, 3, 1, 4 :: int] 2) \<and>
   UniqueByParallelS 4 [1, 0] doubling [[9, 1, 2, 2, 3, 1, 4, 7, 7]]
       \<lparr>base = 0, offs = 1, slen = 6, scap = 8\<rparr> 2 (=) =
     Some (Inr ([[9, 1, 2, 2, 3, 1, 4, 7, 7], [3], [3, 1], [3, 1, 4, 0], [1], [1, 2], [1],
                 [1, 2], [1, 2, 3, 4]],
                \<lparr>base = 8, offs = 0, slen = 4, scap = 4\<rparr>)) \<and>
   freshFrom (length [[9, 1, 2, 2, 3, 1, 4, 7, 7 :: int]]) \<lparr>base = 8, offs = 0, slen = 4, scap = 4\<rparr> \<and>
   UniqueByParallel 4 [1, 0] [1, 2, 2, 3, 1, 4 :: int] 2 (=) = Some (Inr [1, 2, 3, 4])"
proof -
  let ?h = "[[9, 1, 2, 2, 3, 1, 4, 7, 7 :: int]]"
  let ?s = "\<lparr>base = 0, offs = 1, slen = 6, scap = 8\<rparr>"
  have a: "sliceIn ?h ?s" by (simp add: sliceIn_def)
  have v: "viewOf ?h ?s = [1, 2, 2, 3, 1, 4]" by (simp add: viewOf_def)
  have b: "validSchedule [1, 0] (numWorkers 4 [1, 2, 2, 3, 1, 4 :: int] 2)" by code_simp
  have b': "validSchedule [1, 0] (numWorkers 4 (viewOf ?h ?s) 2)" unfolding v by (rule b)
  have c: "UniqueByParallelS 4 [1, 0] doubling ?h ?s 2 (=) =
     Some (Inr ([[9, 1, 2, 2, 3, 1, 4, 7, 7], [3], [3, 1], [3, 1, 4, 0], [1], [1, 2], [1],
                 [1, 2], [1, 2, 3, 4]],
                \<lparr>base = 8, offs = 0, slen = 4, scap = 4\<rparr>))" by code_simp
  from input_not_mutated [OF a b', of doubling "(=)"] c
  have "freshFrom (length ?h) \<lparr>base = 8, offs = 0, slen = 4, scap = 4\<rparr> \<and>
        UniqueByParallel 4 [1, 0] (viewOf ?h ?s) 2 (=) =
          Some (Inr (viewOf [[9, 1, 2, 2, 3, 1, 4, 7, 7], [3], [3, 1], [3, 1, 4, 0], [1], [1, 2],
             [1], [1, 2], [1, 2, 3, 4]] \<lparr>base = 8, offs = 0, slen = 4, scap = 4\<rparr>))"
    by simp
  then have "freshFrom (length ?h) \<lparr>base = 8, offs = 0, slen = 4, scap = 4\<rparr> \<and>
        UniqueByParallel 4 [1, 0] [1, 2, 2, 3, 1, 4 :: int] 2 (=) = Some (Inr [1, 2, 3, 4])"
    unfolding v by (simp add: viewOf_def)
  with a v b c show ?thesis by blast
qed

end
